theory Spec2Isabelle
  imports Main "HOL-Library.Char_ord" "HOL-Library.List_Lexorder" "HOL-Library.Finite_Map"
begin

section \<open>The Hurl-to-Bruno converter (api/hurl-to-bruno.js)\<close>

text \<open>
  A shallow embedding of the converter script: the line parser \<open>parseHurlFile\<close>, the
  value and assertion translators \<open>transformValue\<close> and \<open>assertToJs\<close>, the serializer
  \<open>generateBruFile\<close>, the tree writer \<open>generateCollection\<close> and the drift check
  \<open>checkMode\<close>.

  Strings are \<open>char list\<close>s. Isabelle characters are 8-bit, so the model covers
  texts whose code units lie below 256; on those the character classes below are the
  classes of the JavaScript regular expressions (\<open>\s\<close>, \<open>\w\<close>, \<open>\d\<close>, \<open>.\<close>).
\<close>

subsection \<open>Character classes and string primitives\<close>

definition newline :: char where
  "newline = CHR 0x0A"

text \<open>\<open>\s\<close> and the characters removed by \<open>String.prototype.trim\<close>: tab, line feed,
  vertical tab, form feed, carriage return, space and no-break space.\<close>

definition isSpace :: "char \<Rightarrow> bool" where
  "isSpace c = (c = CHR 0x09 \<or> c = CHR 0x0A \<or> c = CHR 0x0B \<or> c = CHR 0x0C \<or> c = CHR 0x0D
      \<or> c = CHR 0x20 \<or> c = CHR 0xA0)"

text \<open>The regular expression \<open>.\<close> matches every character but a line terminator.\<close>

definition isDot :: "char \<Rightarrow> bool" where
  "isDot c = (c \<noteq> CHR 0x0A \<and> c \<noteq> CHR 0x0D)"

definition isDigit :: "char \<Rightarrow> bool" where
  "isDigit c = (CHR ''0'' \<le> c \<and> c \<le> CHR ''9'')"

definition isLower :: "char \<Rightarrow> bool" where
  "isLower c = (CHR ''a'' \<le> c \<and> c \<le> CHR ''z'')"

definition isUpper :: "char \<Rightarrow> bool" where
  "isUpper c = (CHR ''A'' \<le> c \<and> c \<le> CHR ''Z'')"

definition isAlpha :: "char \<Rightarrow> bool" where
  "isAlpha c = (isUpper c \<or> isLower c)"

text \<open>\<open>\w\<close> is \<open>[A-Za-z0-9_]\<close>; \<open>[\w-]\<close> adds the hyphen.\<close>

definition isWord :: "char \<Rightarrow> bool" where
  "isWord c = (isAlpha c \<or> isDigit c \<or> c = CHR ''_'')"

definition isWordDash :: "char \<Rightarrow> bool" where
  "isWordDash c = (isWord c \<or> c = CHR ''-'')"

definition trim :: "string \<Rightarrow> string" where
  "trim s = rev (dropWhile isSpace (rev (dropWhile isSpace s)))"

definition startsWith :: "string \<Rightarrow> string \<Rightarrow> bool" where
  "startsWith pre s = (take (length pre) s = pre)"

definition endsWith :: "string \<Rightarrow> string \<Rightarrow> bool" where
  "endsWith suf s = (length suf \<le> length s \<and> drop (length s - length suf) s = suf)"

text \<open>\<open>s.split(d)\<close> for a one-character separator: never empty, \<open>"".split(d) = [""]\<close>.\<close>

fun split :: "char \<Rightarrow> string \<Rightarrow> string list" where
  "split d [] = [[]]"
| "split d (c # cs) =
     (if c = d then [] # split d cs
      else (case split d cs of [] \<Rightarrow> [[c]] | x # xs \<Rightarrow> (c # x) # xs))"

text \<open>\<open>xs.join(sep)\<close>.\<close>

fun join :: "string \<Rightarrow> string list \<Rightarrow> string" where
  "join sep [] = []"
| "join sep [x] = x"
| "join sep (x # y # ys) = x @ sep @ join sep (y # ys)"

subsection \<open>The regular expressions of the parser\<close>

text \<open>
  The tail \<open>\s+(.+)$\<close> (\<open>atLeastOne\<close>) or \<open>\s*(.+)$\<close> of a pattern, matched against
  the rest of the subject; the result is the group \<open>(.+)\<close>. The white space is greedy: it
  takes the whole run \<open>ws\<close>. When something follows the run, the group is that remainder
  \<open>r\<close>, which must be free of line terminators (giving back white space would only
  prepend to \<open>r\<close>). When nothing follows, the matcher gives back one character of the
  run, the group is that last white space character, and the run must keep the
  required minimum.
\<close>

definition restOfLine :: "bool \<Rightarrow> string \<Rightarrow> string option" where
  "restOfLine atLeastOne s =
     (let ws = takeWhile isSpace s; r = dropWhile isSpace s in
      if atLeastOne \<and> ws = [] then None
      else if r \<noteq> [] then (if list_all isDot r then Some r else None)
      else if (if atLeastOne then 2 \<le> length ws else ws \<noteq> []) \<and> isDot (last ws)
        then Some [last ws]
      else None)"

text \<open>\<open>/^(GET|POST|PUT|DELETE|PATCH)\s+(.+)$/\<close>: no verb is a prefix of another, so at
  most one alternative fits.\<close>

definition methodMatch :: "string \<Rightarrow> (string \<times> string) option" where
  "methodMatch s =
     (case List.find (\<lambda>v. startsWith v s) [''GET'', ''POST'', ''PUT'', ''DELETE'', ''PATCH''] of
        None \<Rightarrow> None
      | Some v \<Rightarrow>
          (case restOfLine True (drop (length v) s) of
             None \<Rightarrow> None
           | Some u \<Rightarrow> Some (v, u)))"

text \<open>\<open>/^([A-Za-z][\w-]*)\s*:\s*(.+)$/\<close>: the key is the longest run of \<open>[\w-]\<close>, since
  the character after it must be white space or the colon.\<close>

definition headerMatch :: "string \<Rightarrow> (string \<times> string) option" where
  "headerMatch s =
     (case s of
        [] \<Rightarrow> None
      | c # cs \<Rightarrow>
          if \<not> isAlpha c then None
          else
            (case dropWhile isSpace (dropWhile isWordDash cs) of
               [] \<Rightarrow> None
             | d # r \<Rightarrow>
                 if d \<noteq> CHR '':'' then None
                 else
                   (case restOfLine False r of
                      None \<Rightarrow> None
                    | Some v \<Rightarrow> Some (c # takeWhile isWordDash cs, v))))"

text \<open>\<open>parseInt(digits, 10)\<close> on a string of decimal digits, as the integer the digits
  denote. The code holds it as a double: the two agree below \<open>2^53\<close>, which covers
  every status code of HTTP (three digits); from there on the code rounds, and
  prints the rounded number, which this model does not follow.\<close>

definition digitVal :: "char \<Rightarrow> nat" where
  "digitVal c = of_char c - 48"

definition parseInt :: "string \<Rightarrow> nat" where
  "parseInt ds = foldl (\<lambda>n c. 10 * n + digitVal c) 0 ds"

text \<open>\<open>/^HTTP\s+(\d+)$/\<close>.\<close>

definition statusMatch :: "string \<Rightarrow> string option" where
  "statusMatch s =
     (if \<not> startsWith ''HTTP'' s then None
      else
        (let t = drop 4 s; ds = dropWhile isSpace t in
         if takeWhile isSpace t = [] \<or> ds = [] \<or> \<not> list_all isDigit ds then None
         else Some ds))"

text \<open>\<open>/^(\w+)\s*:\s*jsonpath\s+"(.+)"$/\<close>: the group \<open>(.+)\<close> runs to the end and gives
  back the closing quote.\<close>

definition captureMatch :: "string \<Rightarrow> (string \<times> string) option" where
  "captureMatch s =
     (let nm = takeWhile isWord s in
      if nm = [] then None
      else
        (case dropWhile isSpace (dropWhile isWord s) of
           [] \<Rightarrow> None
         | d # r \<Rightarrow>
             if d \<noteq> CHR '':'' then None
             else
               (let r1 = dropWhile isSpace r in
                if \<not> startsWith ''jsonpath'' r1 then None
                else
                  (let r2 = drop 8 r1 in
                   if takeWhile isSpace r2 = [] then None
                   else
                     (case dropWhile isSpace r2 of
                        [] \<Rightarrow> None
                      | q # r3 \<Rightarrow>
                          if q \<noteq> CHR 0x22 \<or> length r3 < 2 \<or> last r3 \<noteq> CHR 0x22
                             \<or> \<not> list_all isDot (butlast r3)
                          then None
                          else Some (nm, butlast r3))))))"

text \<open>\<open>trimmed.replace(/^#\s*/, "")\<close> on a line that starts with \<open>#\<close>.\<close>

definition stripHash :: "string \<Rightarrow> string" where
  "stripHash s = (if startsWith ''#'' s then dropWhile isSpace (drop 1 s) else s)"

subsection \<open>Request records and the parser\<close>

record capture =
  name :: string
  jsonpath :: string

text \<open>\<open>headers\<close> is a JavaScript object used as an ordered dictionary: a new key is
  appended, an existing key keeps its place (the keys start with a letter, so none
  is an array index).\<close>

text \<open>The field \<open>method\<close> of the source is \<open>method'\<close> here (\<open>method\<close> is a keyword).\<close>

record request =
  comment :: "string option"
  method' :: "string option"
  url :: "string option"
  headers :: "(string \<times> string) list"
  body :: "string option"
  statusCode :: "nat option"
  asserts :: "string list"
  captures :: "capture list"

datatype pstate = IDLE | HEADERS | BODY | RESPONSE | ASSERTS | CAPTURES

text \<open>The variables of \<open>parseHurlFile\<close> that its loop updates.\<close>

record parser =
  requests :: "request list"
  current :: "request option"
  state :: pstate
  bodyLines :: "string list"
  braceDepth :: int

text \<open>Reading a property of \<open>null\<close> raises a \<open>TypeError\<close>; the file system raises the
  others.\<close>

datatype error = TypeError | ENOENT | ENOTDIR | EISDIR | EEXIST

definition newRequest :: "string option \<Rightarrow> request" where
  "newRequest c = \<lparr>comment = c, method' = None, url = None, headers = [], body = None,
     statusCode = None, asserts = [], captures = []\<rparr>"

definition initial :: parser where
  "initial = \<lparr>requests = [], current = None, state = IDLE, bodyLines = [], braceDepth = 0\<rparr>"

text \<open>A string or \<open>null\<close> in a condition: \<open>null\<close> and the empty string are falsy.\<close>

definition truthy :: "string option \<Rightarrow> bool" where
  "truthy v = (case v of None \<Rightarrow> False | Some s \<Rightarrow> s \<noteq> [])"

definition finishBody :: "parser \<Rightarrow> parser" where
  "finishBody p =
     (case current p of
        None \<Rightarrow> p
      | Some cur \<Rightarrow>
          if bodyLines p \<noteq> []
          then p\<lparr>current := Some (cur\<lparr>body := Some (join [newline] (bodyLines p))\<rparr>),
                 bodyLines := [], braceDepth := 0\<rparr>
          else p)"

definition pushCurrent :: "parser \<Rightarrow> parser" where
  "pushCurrent p =
     (case current p of
        None \<Rightarrow> p
      | Some _ \<Rightarrow>
          (let p1 = finishBody p in
           (case current p1 of
              None \<Rightarrow> p1
            | Some cur \<Rightarrow>
                if truthy (method' cur)
                then p1\<lparr>requests := requests p1 @ [cur], current := None\<rparr>
                else p1\<lparr>current := None\<rparr>)))"

text \<open>The brace tally of one trimmed line: \<open>{\<close> adds one, \<open>}\<close> takes one away.\<close>

definition braceDelta :: "string \<Rightarrow> int" where
  "braceDelta t = int (length (filter (\<lambda>ch. ch = CHR ''{'') t))
                - int (length (filter (\<lambda>ch. ch = CHR ''}'') t))"

text \<open>An update of a field of \<open>current\<close>; \<open>current\<close> is \<open>null\<close> when no record is open.\<close>

definition withCurrent :: "parser \<Rightarrow> (request \<Rightarrow> request) \<Rightarrow> error + parser" where
  "withCurrent p f =
     (case current p of
        None \<Rightarrow> Inl TypeError
      | Some cur \<Rightarrow> Inr (p\<lparr>current := Some (f cur)\<rparr>))"

text \<open>\<open>obj[k] = v\<close> on an ordered dictionary.\<close>

fun setKey :: "'k \<Rightarrow> 'v \<Rightarrow> ('k \<times> 'v) list \<Rightarrow> ('k \<times> 'v) list" where
  "setKey k v [] = [(k, v)]"
| "setKey k v ((k', v') # kvs) =
     (if k' = k then (k, v) # kvs else (k', v') # setKey k v kvs)"

text \<open>The method line: a record that already has a method is pushed and an untagged
  one opened; with no record open, an untagged one is opened; a record opened by a
  comment receives the method.\<close>

definition methodLine :: "parser \<Rightarrow> string \<times> string \<Rightarrow> error + parser" where
  "methodLine p mu =
     (let p1 =
        (case current p of
           None \<Rightarrow> p\<lparr>current := Some (newRequest None)\<rparr>
         | Some cur \<Rightarrow>
             if truthy (method' cur) then (pushCurrent p)\<lparr>current := Some (newRequest None)\<rparr>
             else p)
      in
      (case withCurrent p1 (\<lambda>cur. cur\<lparr>method' := Some (fst mu), url := Some (snd mu)\<rparr>) of
         Inl e \<Rightarrow> Inl e
       | Inr p2 \<Rightarrow> Inr (p2\<lparr>state := HEADERS\<rparr>)))"

text \<open>One round of the loop over the lines; each \<open>continue\<close> of the source is a
  branch.\<close>

definition parseLine :: "parser \<Rightarrow> string \<Rightarrow> error + parser" where
  "parseLine p line =
     (let trimmed = trim line in
      if trimmed = [] then
        (if state p = BODY then Inr (p\<lparr>bodyLines := bodyLines p @ [line]\<rparr>) else Inr p)
      else if startsWith ''#'' trimmed \<and> state p \<noteq> BODY then
        Inr ((pushCurrent p)\<lparr>current := Some (newRequest (Some (stripHash trimmed))),
                              state := IDLE\<rparr>)
      else if methodMatch trimmed \<noteq> None \<and> state p \<noteq> BODY then
        methodLine p (the (methodMatch trimmed))
      else if state p = HEADERS \<and> headerMatch trimmed \<noteq> None then
        withCurrent p (\<lambda>cur. cur\<lparr>headers :=
          setKey (fst (the (headerMatch trimmed))) (snd (the (headerMatch trimmed))) (headers cur)\<rparr>)
      else if trimmed = ''{'' \<and> (state p = HEADERS \<or> state p = IDLE) then
        Inr (p\<lparr>state := BODY, bodyLines := [line], braceDepth := 1\<rparr>)
      else if state p = BODY then
        (let p1 = p\<lparr>bodyLines := bodyLines p @ [line],
                     braceDepth := braceDepth p + braceDelta trimmed\<rparr>
         in if braceDepth p1 = 0 then Inr ((finishBody p1)\<lparr>state := IDLE\<rparr>) else Inr p1)
      else if statusMatch trimmed \<noteq> None then
        (case withCurrent p (\<lambda>cur. cur\<lparr>statusCode := Some (parseInt (the (statusMatch trimmed)))\<rparr>) of
           Inl e \<Rightarrow> Inl e
         | Inr p1 \<Rightarrow> Inr (p1\<lparr>state := RESPONSE\<rparr>))
      else if trimmed = ''[Asserts]'' then Inr (p\<lparr>state := ASSERTS\<rparr>)
      else if trimmed = ''[Captures]'' then Inr (p\<lparr>state := CAPTURES\<rparr>)
      else if state p = CAPTURES then
        (case captureMatch trimmed of
           None \<Rightarrow> Inr p
         | Some (n, jp) \<Rightarrow>
             withCurrent p (\<lambda>cur. cur\<lparr>captures := captures cur @ [\<lparr>name = n, jsonpath = jp\<rparr>]\<rparr>))
      else if state p = ASSERTS then
        withCurrent p (\<lambda>cur. cur\<lparr>asserts := asserts cur @ [trimmed]\<rparr>)
      else Inr p)"

text \<open>The loop: an exception ends it.\<close>

fun parseLines :: "parser \<Rightarrow> string list \<Rightarrow> error + parser" where
  "parseLines p [] = Inr p"
| "parseLines p (l # ls) =
     (case parseLine p l of
        Inl e \<Rightarrow> Inl e
      | Inr p' \<Rightarrow> parseLines p' ls)"

text \<open>The body of \<open>parseHurlFile\<close> after the file is read and split: run the loop,
  push the open record, return \<open>requests\<close>.\<close>

definition parseHurlLines :: "string list \<Rightarrow> error + request list" where
  "parseHurlLines lines =
     (case parseLines initial lines of
        Inl e \<Rightarrow> Inl e
      | Inr p \<Rightarrow> Inr (requests (pushCurrent p)))"

text \<open>\<open>parseHurlFile\<close> on the text of the file: \<open>text.split("\n")\<close> first.\<close>

definition parseHurlText :: "string \<Rightarrow> error + request list" where
  "parseHurlText text = parseHurlLines (split newline text)"

subsection \<open>Transform: names, paths and values\<close>

text \<open>\<open>s.slice(a, b)\<close> and \<open>s.slice(a)\<close>: a negative index counts from the end, every
  index is clamped to the string.\<close>

definition sliceIndex :: "string \<Rightarrow> int \<Rightarrow> nat" where
  "sliceIndex s i =
     (if i < 0 then nat (max (int (length s) + i) 0) else min (nat i) (length s))"

definition slice :: "string \<Rightarrow> int \<Rightarrow> int \<Rightarrow> string" where
  "slice s a b = take (sliceIndex s b - sliceIndex s a) (drop (sliceIndex s a) s)"

definition sliceFrom :: "string \<Rightarrow> int \<Rightarrow> string" where
  "sliceFrom s a = drop (sliceIndex s a) s"

text \<open>\<open>s.indexOf(needle, from)\<close>: the first position at or after \<open>from\<close> where
  \<open>needle\<close> starts, or \<open>-1\<close>.\<close>

fun findAt :: "string \<Rightarrow> string \<Rightarrow> nat \<Rightarrow> int" where
  "findAt needle [] i = (if needle = [] then int i else - 1)"
| "findAt needle (c # cs) i =
     (if startsWith needle (c # cs) then int i else findAt needle cs (Suc i))"

definition indexOf :: "string \<Rightarrow> string \<Rightarrow> nat \<Rightarrow> int" where
  "indexOf needle s from = findAt needle (drop from s) from"

text \<open>\<open>s.lastIndexOf(".")\<close> for a one-character needle.\<close>

fun lastIndexOfFrom :: "char \<Rightarrow> string \<Rightarrow> nat \<Rightarrow> int" where
  "lastIndexOfFrom d [] i = - 1"
| "lastIndexOfFrom d (c # cs) i =
     (let later = lastIndexOfFrom d cs (Suc i) in
      if later \<noteq> - 1 then later else if c = d then int i else - 1)"

definition lastIndexOf :: "char \<Rightarrow> string \<Rightarrow> int" where
  "lastIndexOf d s = lastIndexOfFrom d s 0"

text \<open>\<open>String(n)\<close> for a natural number, and \<open>padStart(2, "0")\<close>.\<close>

fun showNat :: "nat \<Rightarrow> string" where
  "showNat n =
     (if n < 10 then [''0123456789'' ! n]
      else showNat (n div 10) @ [''0123456789'' ! (n mod 10)])"

declare showNat.simps [simp del]

definition padStart2 :: "string \<Rightarrow> string" where
  "padStart2 s = replicate (2 - length s) (CHR ''0'') @ s"

text \<open>\<open>toLowerCase\<close> on 8-bit characters: the ASCII capitals and the Latin-1 capitals
  \<open>0xC0\<close> to \<open>0xDE\<close> without the multiplication sign \<open>0xD7\<close>.\<close>

definition lowerChar :: "char \<Rightarrow> char" where
  "lowerChar c =
     (if isUpper c \<or> (CHR 0xC0 \<le> c \<and> c \<le> CHR 0xDE \<and> c \<noteq> CHR 0xD7)
      then char_of (of_char c + (32::nat)) else c)"

definition toLowerCase :: "string \<Rightarrow> string" where
  "toLowerCase s = map lowerChar s"

text \<open>\<open>replace(/[^a-z0-9]+/g, "-")\<close>: every maximal run of other characters becomes
  one hyphen.\<close>

definition isSlugChar :: "char \<Rightarrow> bool" where
  "isSlugChar c = (isLower c \<or> isDigit c)"

function collapseRuns :: "string \<Rightarrow> string" where
  "collapseRuns [] = []"
| "collapseRuns (c # cs) =
     (if isSlugChar c then c # collapseRuns cs
      else CHR ''-'' # collapseRuns (dropWhile (\<lambda>x. \<not> isSlugChar x) cs))"
  by pat_completeness auto
termination
  by (relation "measure length") (auto simp: length_dropWhile_le less_Suc_eq_le)

text \<open>\<open>replace(/^-|-$/g, "")\<close>: a hyphen at the start goes, then a hyphen at the end
  of what is left.\<close>

definition stripHyphens :: "string \<Rightarrow> string" where
  "stripHyphens s =
     (let s1 = (if startsWith ''-'' s then drop 1 s else s)
      in if endsWith ''-'' s1 then butlast s1 else s1)"

definition slugify :: "string \<Rightarrow> string" where
  "slugify str = stripHyphens (collapseRuns (toLowerCase str))"

text \<open>\<open>basename(filename, ".hurl")\<close> of \<open>node:path\<close> on a name without a slash: the
  suffix is cut; a name that is the suffix itself gives the empty string.\<close>

definition basenameHurl :: "string \<Rightarrow> string" where
  "basenameHurl f = (if endsWith ''.hurl'' f then take (length f - 5) f else f)"

definition folderName :: "string \<Rightarrow> string" where
  "folderName filename = map (\<lambda>c. if c = CHR ''_'' then CHR ''-'' else c) (basenameHurl filename)"

text \<open>A template literal prints \<open>null\<close> as the text \<open>null\<close>.\<close>

definition showOpt :: "string option \<Rightarrow> string" where
  "showOpt v = (case v of None \<Rightarrow> ''null'' | Some s \<Rightarrow> s)"

text \<open>\<open>fileName(request, index, method, url)\<close>; \<open>url.split\<close> raises on \<open>null\<close>.\<close>

definition fileName :: "request \<Rightarrow> nat \<Rightarrow> string option \<Rightarrow> string option \<Rightarrow> error + string" where
  "fileName request index meth u =
     (let nn = padStart2 (showNat (index + 1)) in
      if truthy (comment request)
      then Inr (nn @ ''-'' @ slugify (the (comment request)) @ ''.bru'')
      else
        (case u of
           None \<Rightarrow> Inl TypeError
         | Some ur \<Rightarrow>
             (let seg = hd (split (CHR ''?'') (last (split (CHR ''/'') ur)));
                  pathEnd = (if seg = [] then ''request'' else seg)
              in Inr (nn @ ''-'' @ slugify (showOpt meth @ ''-'' @ pathEnd) @ ''.bru''))))"

definition stripDollar :: "string \<Rightarrow> string" where
  "stripDollar jp = (if startsWith ''$.'' jp then sliceFrom jp 2 else jp)"

definition jsonpathToJs :: "string \<Rightarrow> string" where
  "jsonpathToJs jp = ''res.body.'' @ stripDollar jp"

text \<open>\<open>jsonpathToPropertyCheck\<close> returns \<open>{ parent, prop }\<close>.\<close>

definition jsonpathToPropertyCheck :: "string \<Rightarrow> string \<times> string" where
  "jsonpathToPropertyCheck jp =
     (let path = stripDollar jp; lastDot = lastIndexOf (CHR ''.'') path in
      if lastDot = - 1 then (''res.body'', path)
      else (''res.body.'' @ slice path 0 lastDot, sliceFrom path (lastDot + 1)))"

text \<open>The result object of \<open>transformValue\<close>; a property the source leaves out is
  \<open>undefined\<close>, which is falsy.\<close>

record jsvalue =
  expr :: string
  isNull :: bool
  isLiteral :: bool

definition literal :: "string \<Rightarrow> jsvalue" where
  "literal e = \<lparr>expr = e, isNull = False, isLiteral = True\<rparr>"

text \<open>\<open>/^-?\d+$/\<close> and \<open>/^-?\d+\.\d+$/\<close>.\<close>

definition dropSign :: "string \<Rightarrow> string" where
  "dropSign s = (if startsWith ''-'' s then drop 1 s else s)"

definition isInteger :: "string \<Rightarrow> bool" where
  "isInteger s = (dropSign s \<noteq> [] \<and> list_all isDigit (dropSign s))"

definition isDecimal :: "string \<Rightarrow> bool" where
  "isDecimal s =
     (let t = dropSign s; whole = takeWhile isDigit t; r = dropWhile isDigit t in
      whole \<noteq> [] \<and> startsWith ''.'' r \<and> drop 1 r \<noteq> [] \<and> list_all isDigit (drop 1 r))"

text \<open>\<open>/^\{\{(\w+)\}\}$/\<close>: the name between the braces.\<close>

definition varMatch :: "string \<Rightarrow> string option" where
  "varMatch s =
     (if \<not> startsWith ''{{'' s then None
      else
        (let t = drop 2 s in
         if takeWhile isWord t \<noteq> [] \<and> dropWhile isWord t = ''}}''
         then Some (takeWhile isWord t) else None))"

definition getVar :: "string \<Rightarrow> string" where
  "getVar v = ''bru.getVar(\"'' @ v @ ''\")''"

definition quoted :: "string \<Rightarrow> string" where
  "quoted s = ''\"'' @ s @ ''\"''"

text \<open>The \<open>while (remaining.length > 0)\<close> loop of \<open>transformValue\<close>, returning
  \<open>parts\<close>. With no closing \<open>}}\<close>, \<open>endIdx\<close> is \<open>-1\<close> and the loop goes on one
  character further.\<close>

function mixedParts :: "string \<Rightarrow> string list" where
  "mixedParts remaining =
     (if remaining = [] then []
      else
        (let varIdx = indexOf ''{{'' remaining 0 in
         if varIdx = - 1 then [quoted remaining]
         else
           (let endIdx = indexOf ''}}'' remaining (nat varIdx) in
            (if 0 < varIdx then [quoted (slice remaining 0 varIdx)] else [])
            @ getVar (slice remaining (varIdx + 2) endIdx)
            # mixedParts (sliceFrom remaining (endIdx + 2)))))"
  by pat_completeness auto
termination
proof (relation "measure length", goal_cases)
  case 1
  show ?case by simp
next
  case (2 remaining varIdx endIdx)
  have "- 1 \<le> findAt n s i" for n s i
    by (induction s arbitrary: i) auto
  then have "- 1 \<le> endIdx"
    using 2 by (simp add: indexOf_def)
  with 2 show ?case
    by (cases remaining) (auto simp: sliceFrom_def sliceIndex_def)
qed

declare mixedParts.simps [simp del]

definition includesStr :: "string \<Rightarrow> string \<Rightarrow> bool" where
  "includesStr needle s = (indexOf needle s 0 \<noteq> - 1)"

definition transformValue :: "string \<Rightarrow> jsvalue" where
  "transformValue rawValue =
     (if rawValue = ''null'' then \<lparr>expr = ''null'', isNull = True, isLiteral = False\<rparr>
      else if rawValue = ''true'' then literal ''true''
      else if rawValue = ''false'' then literal ''false''
      else if isInteger rawValue then literal rawValue
      else if isDecimal rawValue then literal rawValue
      else
        (case varMatch rawValue of
           Some v \<Rightarrow> literal (getVar v)
         | None \<Rightarrow>
             if startsWith ''\"'' rawValue \<and> endsWith ''\"'' rawValue then
               (let inner = slice rawValue 1 (- 1) in
                (case varMatch inner of
                   Some v \<Rightarrow> literal (getVar v)
                 | None \<Rightarrow>
                     if includesStr ''{{'' inner then literal (join '' + '' (mixedParts inner))
                     else literal rawValue))
             else literal rawValue))"

subsection \<open>Transform: assertions\<close>

text \<open>\<open>/^jsonpath\s+"([^"]+)"\s+(.+)$/\<close>: the path is the longest run without a
  quote, since a quote must follow it.\<close>

definition jpMatch :: "string \<Rightarrow> (string \<times> string) option" where
  "jpMatch s =
     (if \<not> startsWith ''jsonpath'' s then None
      else
        (let t = drop 8 s in
         if takeWhile isSpace t = [] then None
         else
           (case dropWhile isSpace t of
              [] \<Rightarrow> None
            | q # r \<Rightarrow>
                if q \<noteq> CHR 0x22 then None
                else
                  (let jp = takeWhile (\<lambda>c. c \<noteq> CHR 0x22) r in
                   if jp = [] then None
                   else
                     (case dropWhile (\<lambda>c. c \<noteq> CHR 0x22) r of
                        [] \<Rightarrow> None
                      | _ # r1 \<Rightarrow>
                          (case restOfLine True r1 of
                             None \<Rightarrow> None
                           | Some rest \<Rightarrow> Some (jp, rest)))))))"

text \<open>\<open>/^(==|>=)\s+(.+)$/\<close>.\<close>

definition opMatch :: "string \<Rightarrow> (string \<times> string) option" where
  "opMatch s =
     (if startsWith ''=='' s \<or> startsWith ''>='' s then
        (case restOfLine True (drop 2 s) of
           None \<Rightarrow> None
         | Some v \<Rightarrow> Some (take 2 s, v))
      else None)"

text \<open>\<open>/^count\s+(==|>=)\s+(.+)$/\<close>.\<close>

definition countMatch :: "string \<Rightarrow> (string \<times> string) option" where
  "countMatch s =
     (if \<not> startsWith ''count'' s then None
      else
        (let t = drop 5 s in
         if takeWhile isSpace t = [] then None else opMatch (dropWhile isSpace t)))"

text \<open>\<open>/^contains\s+(.+)$/\<close>.\<close>

definition containsMatch :: "string \<Rightarrow> string option" where
  "containsMatch s =
     (if startsWith ''contains'' s then restOfLine True (drop 8 s) else None)"

text \<open>\<open>/^matches\s+"([^"]*)"$/\<close>.\<close>

definition matchesMatch :: "string \<Rightarrow> string option" where
  "matchesMatch s =
     (if \<not> startsWith ''matches'' s then None
      else
        (let t = drop 7 s in
         if takeWhile isSpace t = [] then None
         else
           (case dropWhile isSpace t of
              [] \<Rightarrow> None
            | q # r \<Rightarrow>
                if q = CHR 0x22 \<and> dropWhile (\<lambda>c. c \<noteq> CHR 0x22) r = ''\"''
                then Some (takeWhile (\<lambda>c. c \<noteq> CHR 0x22) r) else None)))"

text \<open>The predicates of \<open>assertToJs\<close>, tried in the order of the source, on the path
  \<open>jp\<close> and the trimmed rest of the line; \<open>assertLine\<close> is the whole line, for the
  marker.\<close>

definition predicateToJs :: "string \<Rightarrow> string \<Rightarrow> string \<Rightarrow> string" where
  "predicateToJs assertLine jp rest =
     (case countMatch rest of
        Some (op, v) \<Rightarrow>
          if op = ''=='' then
            ''expect('' @ jsonpathToJs jp @ ''.length).to.eql('' @ expr (transformValue (trim v)) @ '');''
          else
            ''expect('' @ jsonpathToJs jp @ ''.length).to.be.at.least(''
              @ expr (transformValue (trim v)) @ '');''
      | None \<Rightarrow>
          if rest = ''not exists'' then
            ''expect('' @ fst (jsonpathToPropertyCheck jp) @ '').to.not.have.property(\"''
              @ snd (jsonpathToPropertyCheck jp) @ ''\");''
          else if rest = ''not isEmpty'' then
            ''expect('' @ jsonpathToJs jp @ '').to.not.eql(\"\");''
          else if rest = ''isString'' then
            ''expect(typeof '' @ jsonpathToJs jp @ '').to.eql(\"string\");''
          else if rest = ''isInteger'' then
            ''expect(Number.isInteger('' @ jsonpathToJs jp @ '')).to.eql(true);''
          else if rest = ''isCollection'' then
            ''expect(Array.isArray('' @ jsonpathToJs jp @ '')).to.eql(true);''
          else
            (case containsMatch rest of
               Some rawVal \<Rightarrow>
                 ''expect('' @ jsonpathToJs jp @ '').to.include(''
                   @ expr (transformValue (trim rawVal)) @ '');''
             | None \<Rightarrow>
                 (case matchesMatch rest of
                    Some re \<Rightarrow> ''expect('' @ jsonpathToJs jp @ '').to.match(/'' @ re @ ''/);''
                  | None \<Rightarrow>
                      (case opMatch rest of
                         Some (op, rawVal) \<Rightarrow>
                           if op = ''=='' then
                             (if isNull (transformValue (trim rawVal))
                              then ''expect('' @ jsonpathToJs jp @ '').to.be.null;''
                              else ''expect('' @ jsonpathToJs jp @ '').to.eql(''
                                     @ expr (transformValue (trim rawVal)) @ '');'')
                           else
                             ''expect('' @ jsonpathToJs jp @ '').to.be.at.least(''
                               @ expr (transformValue (trim rawVal)) @ '');''
                       | None \<Rightarrow> ''// UNHANDLED ASSERT: '' @ assertLine))))"

text \<open>\<open>assertToJs\<close>: \<open>null\<close> (here \<open>None\<close>) for a line that is not of the shape
  \<open>jsonpath "<path>" <predicate>\<close>.\<close>

definition assertToJs :: "string \<Rightarrow> string option" where
  "assertToJs assertLine =
     (case jpMatch assertLine of
        None \<Rightarrow> None
      | Some (jp, rest) \<Rightarrow> Some (predicateToJs assertLine jp (trim rest)))"

subsection \<open>Generate: one request file\<close>

definition captureToJs :: "capture \<Rightarrow> string" where
  "captureToJs c =
     ''bru.setVar(\"'' @ name c @ ''\", res.body.'' @ stripDollar (jsonpath c) @ '');''"

text \<open>The loop over \<open>request.asserts\<close>: \<open>if (js) scriptLines.push(js)\<close> skips \<open>null\<close>
  and the empty string.\<close>

fun assertLines :: "string list \<Rightarrow> string list" where
  "assertLines [] = []"
| "assertLines (a # as) =
     (case assertToJs a of
        None \<Rightarrow> assertLines as
      | Some js \<Rightarrow> if js \<noteq> [] then js # assertLines as else assertLines as)"

definition scriptLines :: "request \<Rightarrow> string list" where
  "scriptLines request = map captureToJs (captures request) @ assertLines (asserts request)"

definition indentBody :: "string \<Rightarrow> string" where
  "indentBody b =
     join [newline] (map (\<lambda>l. if trim l \<noteq> [] then ''  '' @ l else l) (split newline b))"

text \<open>\<open>generateBruFile(request, seq)\<close>: \<open>request.url.split\<close> (when the comment is
  falsy) and \<open>request.method.toLowerCase\<close> raise on \<open>null\<close>.\<close>

definition generateBruFile :: "request \<Rightarrow> nat \<Rightarrow> error + string" where
  "generateBruFile request seq =
     (if \<not> truthy (comment request) \<and> url request = None then Inl TypeError
      else if method' request = None then Inl TypeError
      else
        (let nm = (if truthy (comment request) then the (comment request)
                   else showOpt (method' request) @ '' ''
                        @ last (split (CHR ''/'') (the (url request))));
             meta = ''meta {'' @ [newline] @ ''  name: '' @ nm @ [newline]
                    @ ''  type: http'' @ [newline] @ ''  seq: '' @ showNat seq @ [newline] @ ''}'';
             req = toLowerCase (the (method' request)) @ '' {'' @ [newline]
                    @ ''  url: '' @ showOpt (url request) @ [newline]
                    @ ''  body: '' @ (if body request \<noteq> None then ''json'' else ''none'') @ [newline]
                    @ ''  auth: none'' @ [newline] @ ''}'';
             hdrs = (if headers request \<noteq> []
                     then [''headers {'' @ [newline]
                           @ join [newline] (map (\<lambda>(k, v). ''  '' @ k @ '': '' @ v) (headers request))
                           @ [newline] @ ''}'']
                     else []);
             bdy = (case body request of
                      None \<Rightarrow> []
                    | Some b \<Rightarrow> [''body:json {'' @ [newline] @ indentBody b @ [newline] @ ''}'']);
             status = (case statusCode request of
                         None \<Rightarrow> []
                       | Some code \<Rightarrow>
                           [''assert {'' @ [newline] @ ''  res.status: eq '' @ showNat code
                            @ [newline] @ ''}'']);
             script = (if scriptLines request \<noteq> []
                       then [''script:post-response {'' @ [newline]
                             @ join [newline] (map (\<lambda>l. ''  '' @ l) (scriptLines request))
                             @ [newline] @ ''}'']
                       else [])
         in Inr (join [newline, newline] ([meta, req] @ hdrs @ bdy @ status @ script) @ [newline])))"

subsection \<open>The file system\<close>

text \<open>
  A path is the list of its components below the root, already resolved. The file
  system is a finite map from paths to nodes; the root is always a directory. The
  operations of \<open>node:fs\<close> either fail with an error, leaving the file system as it
  was, or return the new file system.
\<close>

type_synonym path = "string list"

datatype node = File string | Dir

type_synonym fs = "(path, node) fmap"

definition existsSync :: "fs \<Rightarrow> path \<Rightarrow> bool" where
  "existsSync fs p = (p = [] \<or> fmlookup fs p \<noteq> None)"

definition isDir :: "fs \<Rightarrow> path \<Rightarrow> bool" where
  "isDir fs p = (p = [] \<or> fmlookup fs p = Some Dir)"

text \<open>\<open>atOrBelow p q\<close>: the path \<open>q\<close> is \<open>p\<close> or lies below it.\<close>

definition atOrBelow :: "path \<Rightarrow> path \<Rightarrow> bool" where
  "atOrBelow p q = (take (length p) q = p)"

text \<open>\<open>join(dir, name)\<close> of \<open>node:path\<close>: the components of \<open>name\<close> are appended, an
  empty component or \<open>.\<close> is skipped, \<open>..\<close> steps up.\<close>

definition joinStep :: "path \<Rightarrow> string \<Rightarrow> path" where
  "joinStep d c = (if c = [] \<or> c = ''.'' then d else if c = ''..'' then butlast d else d @ [c])"

definition pjoin :: "path \<Rightarrow> string \<Rightarrow> path" where
  "pjoin d n = foldl joinStep d (split (CHR ''/'') n)"

text \<open>\<open>mkdirSync(p, { recursive: true })\<close>: every missing directory on the way is
  created; a file on the way is an error.\<close>

fun mkdirs :: "path \<Rightarrow> string list \<Rightarrow> fs \<Rightarrow> error + fs" where
  "mkdirs d [] fs = Inr fs"
| "mkdirs d (c # cs) fs =
     (case fmlookup fs (d @ [c]) of
        None \<Rightarrow> mkdirs (d @ [c]) cs (fmupd (d @ [c]) Dir fs)
      | Some Dir \<Rightarrow> mkdirs (d @ [c]) cs fs
      | Some (File _) \<Rightarrow> Inl (if cs = [] then EEXIST else ENOTDIR))"

definition mkdirSync :: "path \<Rightarrow> fs \<Rightarrow> error + fs" where
  "mkdirSync p fs = mkdirs [] p fs"

definition writeFileSync :: "path \<Rightarrow> string \<Rightarrow> fs \<Rightarrow> error + fs" where
  "writeFileSync p content fs =
     (if p = [] then Inl EISDIR
      else if \<not> existsSync fs (butlast p) then Inl ENOENT
      else if \<not> isDir fs (butlast p) then Inl ENOTDIR
      else if fmlookup fs p = Some Dir then Inl EISDIR
      else Inr (fmupd p (File content) fs))"

definition readFileSync :: "fs \<Rightarrow> path \<Rightarrow> error + string" where
  "readFileSync fs p =
     (if p = [] then Inl EISDIR
      else
        (case fmlookup fs p of
           None \<Rightarrow> Inl ENOENT
         | Some Dir \<Rightarrow> Inl EISDIR
         | Some (File content) \<Rightarrow> Inr content))"

text \<open>A directory entry is never named \<open>.\<close> or \<open>..\<close>, and its name is not empty and
  has no slash; a key of the map with such a last component is no entry.\<close>

definition validName :: "string \<Rightarrow> bool" where
  "validName n = (n \<noteq> [] \<and> n \<noteq> ''.'' \<and> n \<noteq> ''..'' \<and> CHR ''/'' \<notin> set n)"

text \<open>\<open>readdirSync(d)\<close>: the names of the entries of \<open>d\<close>. The order is the file
  system's; the model lists them sorted.\<close>

definition readdirSync :: "fs \<Rightarrow> path \<Rightarrow> error + string list" where
  "readdirSync fs d =
     (if \<not> existsSync fs d then Inl ENOENT
      else if \<not> isDir fs d then Inl ENOTDIR
      else Inr (sorted_list_of_fset
                 (last |`| ffilter (\<lambda>q. q \<noteq> [] \<and> butlast q = d \<and> validName (last q)) (fmdom fs))))"

text \<open>\<open>rmSync(p, { recursive: true, force: true })\<close>: \<open>p\<close> and all below it go; a
  missing \<open>p\<close> is no error.\<close>

definition rmSync :: "path \<Rightarrow> fs \<Rightarrow> fs" where
  "rmSync p fs = fmfilter (\<lambda>q. \<not> atOrBelow p q) fs"

text \<open>\<open>parseHurlFile(filePath)\<close>.\<close>

definition parseHurlFile :: "fs \<Rightarrow> path \<Rightarrow> error + request list" where
  "parseHurlFile fs filePath =
     (case readFileSync fs filePath of
        Inl e \<Rightarrow> Inl e
      | Inr text \<Rightarrow> parseHurlText text)"

subsection \<open>Generate: the collection\<close>

text \<open>The constants of the script: \<open>ROOT\<close> is the directory of the script, \<open>tmpdir\<close>
  the result of \<open>os.tmpdir()\<close>, \<open>now\<close> the result of \<open>Date.now()\<close>.\<close>

record env =
  ROOT :: path
  tmpdir :: path
  now :: nat

definition HURL_DIR :: "env \<Rightarrow> path" where
  "HURL_DIR e = pjoin (ROOT e) ''hurl''"

definition BRUNO_DIR :: "env \<Rightarrow> path" where
  "BRUNO_DIR e = pjoin (ROOT e) ''bruno''"

text \<open>A statement that may throw: the file system it leaves, and the error if it
  threw. What was written before an error stays.\<close>

type_synonym stmt = "fs \<Rightarrow> fs \<times> error option"

definition atomic :: "(fs \<Rightarrow> error + fs) \<Rightarrow> stmt" where
  "atomic f fs = (case f fs of Inl e \<Rightarrow> (fs, Some e) | Inr fs' \<Rightarrow> (fs', None))"

fun steps :: "stmt list \<Rightarrow> stmt" where
  "steps [] fs = (fs, None)"
| "steps (s # ss) fs =
     (case s fs of
        (fs', Some e) \<Rightarrow> (fs', Some e)
      | (fs', None) \<Rightarrow> steps ss fs')"

definition brunoJson :: string where
  "brunoJson = ''{'' @ [newline] @ ''  \"version\": \"1\",'' @ [newline]
     @ ''  \"name\": \"RealWorld API\",'' @ [newline]
     @ ''  \"type\": \"collection\"'' @ [newline] @ ''}'' @ [newline]"

definition collectionBru :: string where
  "collectionBru = ''script:pre-request {'' @ [newline]
     @ ''  if (!bru.getVar(\"uid\")) {'' @ [newline]
     @ ''    bru.setVar(\"uid\", Date.now().toString() + Math.random().toString(36).substring(2, 6));''
     @ [newline] @ ''  }'' @ [newline] @ ''}'' @ [newline]"

definition localBru :: string where
  "localBru = ''vars {'' @ [newline] @ ''  host: http://localhost:3000'' @ [newline]
     @ ''}'' @ [newline]"

text \<open>One round of the loop over \<open>requests\<close>: \<open>i\<close> is the index.\<close>

definition writeRequest :: "path \<Rightarrow> nat \<times> request \<Rightarrow> stmt" where
  "writeRequest folderPath ir fs =
     (case fileName (snd ir) (fst ir) (method' (snd ir)) (url (snd ir)) of
        Inl e \<Rightarrow> (fs, Some e)
      | Inr bruFileName \<Rightarrow>
          (case generateBruFile (snd ir) (fst ir + 1) of
             Inl e \<Rightarrow> (fs, Some e)
           | Inr bruContent \<Rightarrow> atomic (writeFileSync (pjoin folderPath bruFileName) bruContent) fs))"

text \<open>The loop over \<open>requests\<close>.\<close>

definition writeRequests :: "path \<Rightarrow> request list \<Rightarrow> stmt" where
  "writeRequests folderPath reqs =
     steps (map (writeRequest folderPath) (zip [0 ..< length reqs] reqs))"

text \<open>One round of the loop over \<open>hurlFiles\<close>.\<close>

definition processHurlFile :: "env \<Rightarrow> path \<Rightarrow> string \<Rightarrow> stmt" where
  "processHurlFile e outputDir hurlFile fs =
     (case parseHurlFile fs (pjoin (HURL_DIR e) hurlFile) of
        Inl err \<Rightarrow> (fs, Some err)
      | Inr reqs \<Rightarrow>
          steps [atomic (mkdirSync (pjoin outputDir (folderName hurlFile))),
                 writeRequests (pjoin outputDir (folderName hurlFile)) reqs] fs)"

definition processHurlFiles :: "env \<Rightarrow> path \<Rightarrow> stmt" where
  "processHurlFiles e outputDir fs =
     (case readdirSync fs (HURL_DIR e) of
        Inl err \<Rightarrow> (fs, Some err)
      | Inr names \<Rightarrow>
          steps (map (processHurlFile e outputDir) (sort (filter (endsWith ''.hurl'') names))) fs)"

definition generateCollection :: "env \<Rightarrow> path \<Rightarrow> stmt" where
  "generateCollection e outputDir =
     steps [atomic (mkdirSync outputDir),
            atomic (writeFileSync (pjoin outputDir ''bruno.json'') brunoJson),
            atomic (writeFileSync (pjoin outputDir ''collection.bru'') collectionBru),
            atomic (mkdirSync (pjoin outputDir ''environments'')),
            atomic (writeFileSync (pjoin (pjoin outputDir ''environments'') ''local.bru'') localBru),
            processHurlFiles e outputDir]"

subsection \<open>Check mode\<close>

text \<open>The dictionaries of \<open>collectFiles\<close> are plain objects, so they inherit from
  \<open>Object.prototype\<close>. These are its property names.\<close>

definition protoKeys :: "string list" where
  "protoKeys = [''constructor'', ''hasOwnProperty'', ''isPrototypeOf'', ''propertyIsEnumerable'',
     ''toLocaleString'', ''toString'', ''valueOf'', ''__proto__'', ''__defineGetter__'',
     ''__defineSetter__'', ''__lookupGetter__'', ''__lookupSetter__'']"

text \<open>\<open>obj[k] = v\<close> on a plain object, \<open>v\<close> a string: the key \<open>__proto__\<close> is the accessor
  of \<open>Object.prototype\<close>, whose setter ignores a value that is neither an object nor
  \<open>null\<close>, so no property is stored; every other key becomes a property of the object
  itself.\<close>

definition setProp :: "string \<Rightarrow> string \<Rightarrow> (string \<times> string) list \<Rightarrow> (string \<times> string) list" where
  "setProp k v obj = (if k = ''__proto__'' then obj else setKey k v obj)"

text \<open>\<open>Object.assign(result, sub)\<close>: every property of \<open>sub\<close> is set on \<open>result\<close>.\<close>

definition assign :: "(string \<times> string) list \<Rightarrow> (string \<times> string) list \<Rightarrow> (string \<times> string) list" where
  "assign result sub = foldl (\<lambda>r kv. setProp (fst kv) (snd kv) r) result sub"

text \<open>The paths that lie strictly below \<open>dir\<close>; their number goes down with every
  recursive call of \<open>collectFiles\<close>.\<close>

definition below :: "fs \<Rightarrow> path \<Rightarrow> path fset" where
  "below fs dir = ffilter (\<lambda>q. atOrBelow dir q \<and> q \<noteq> dir) (fmdom fs)"

text \<open>\<open>collectFiles(dir, prefix)\<close>: the dictionary from relative paths to contents.\<close>

function collectFiles :: "fs \<Rightarrow> path \<Rightarrow> string \<Rightarrow> error + (string \<times> string) list" where
  "collectFiles fs dir pre =
     (if \<not> existsSync fs dir then Inr []
      else
        (case readdirSync fs dir of
           Inl e \<Rightarrow> Inl e
         | Inr entries \<Rightarrow>
             foldl (\<lambda>result entry.
                      (case result of
                         Inl e \<Rightarrow> Inl e
                       | Inr res \<Rightarrow>
                           (let relPath = (if pre \<noteq> [] then pre @ ''/'' @ entry else entry) in
                            if isDir fs (pjoin dir entry) then
                              (case collectFiles fs (pjoin dir entry) relPath of
                                 Inl e \<Rightarrow> Inl e
                               | Inr sub \<Rightarrow> Inr (assign res sub))
                            else
                              (case readFileSync fs (pjoin dir entry) of
                                 Inl e \<Rightarrow> Inl e
                               | Inr content \<Rightarrow> Inr (setProp relPath content res)))))
                   (Inr []) entries))"
  by pat_completeness auto
termination
proof (relation "measure (\<lambda>(fs, dir, pre). fcard (below fs dir))", goal_cases)
  case 1
  show ?case by simp
next
  case (2 fs dir pre entries result entry res relPath)
  then have "entry |\<in>| last |`| ffilter (\<lambda>q. q \<noteq> [] \<and> butlast q = dir \<and> validName (last q)) (fmdom fs)"
    by (auto simp: readdirSync_def split: if_splits)
  then obtain q where q: "q |\<in>| fmdom fs" "q \<noteq> []" "butlast q = dir" "validName (last q)"
    "entry = last q"
    by auto
  then have child: "dir @ [entry] = q"
    by (metis append_butlast_last_id)
  have "split d s = [s]" if "d \<notin> set s" for d s
    using that by (induction s) auto
  with q have pj: "pjoin dir entry = dir @ [entry]"
    by (simp add: pjoin_def validName_def joinStep_def)
  have sub: "atOrBelow dir p \<and> p \<noteq> dir" if "atOrBelow (dir @ [entry]) p" for p
  proof -
    from that have t: "take (Suc (length dir)) p = dir @ [entry]"
      by (simp add: atOrBelow_def)
    then have "take (length dir) (take (Suc (length dir)) p) = dir"
      by simp
    then have "take (length dir) p = dir"
      by (simp add: min_def)
    moreover from t have "p \<noteq> dir"
      by auto
    ultimately show ?thesis by (simp add: atOrBelow_def)
  qed
  have "below fs (dir @ [entry]) |\<subset>| below fs dir"
  proof
    show "below fs (dir @ [entry]) |\<subseteq>| below fs dir"
      using sub by (auto simp: below_def)
    have "dir @ [entry] |\<in>| fmdom fs"
      using q(1) child by simp
    then have "dir @ [entry] |\<in>| below fs dir"
      by (simp add: below_def atOrBelow_def)
    moreover have "dir @ [entry] |\<notin>| below fs (dir @ [entry])"
      by (simp add: below_def)
    ultimately show "below fs (dir @ [entry]) \<noteq> below fs dir"
      by metis
  qed
  then have "fcard (below fs (dir @ [entry])) < fcard (below fs dir)"
    by (rule pfsubset_fcard_mono)
  with pj show ?case by simp
qed

declare collectFiles.simps [simp del]

text \<open>\<open>key in obj\<close>: the object has the property itself or inherits it.\<close>

definition hasKey :: "string \<Rightarrow> (string \<times> string) list \<Rightarrow> bool" where
  "hasKey key obj \<longleftrightarrow> map_of obj key \<noteq> None \<or> key \<in> set protoKeys"

text \<open>The loop of \<open>checkMode\<close> over the sorted union of the keys. \<open>obj[key]\<close> is the
  stored string, or the inherited member when the object has no such property of
  its own; a key of the loop is a property of one of the two objects, so an
  inherited member (\<open>None\<close> here) is only ever compared with a string, and differs
  from it.\<close>

definition diffLine :: "(string \<times> string) list \<Rightarrow> (string \<times> string) list \<Rightarrow> string \<Rightarrow> string list" where
  "diffLine expected actual key =
     (if \<not> hasKey key actual then [''  missing: '' @ key]
      else if \<not> hasKey key expected then [''  extra:   '' @ key]
      else if map_of expected key \<noteq> map_of actual key then [''  changed: '' @ key]
      else [])"

definition diffs :: "(string \<times> string) list \<Rightarrow> (string \<times> string) list \<Rightarrow> string list" where
  "diffs expected actual =
     concat (map (diffLine expected actual) (sort (remdups (map fst expected @ map fst actual))))"

text \<open>How a run of the script ends: it returns, an exception goes up, or
  \<open>process.exit(code)\<close> ends the process at once.\<close>

datatype outcome = Returned | Thrown error | Exited nat

text \<open>The \<open>try\<close> block of \<open>checkMode\<close>.\<close>

definition checkBody :: "env \<Rightarrow> path \<Rightarrow> fs \<Rightarrow> fs \<times> outcome" where
  "checkBody e tempDir fs =
     (case generateCollection e tempDir fs of
        (fs1, Some err) \<Rightarrow> (fs1, Thrown err)
      | (fs1, None) \<Rightarrow>
          (case collectFiles fs1 tempDir [] of
             Inl err \<Rightarrow> (fs1, Thrown err)
           | Inr expected \<Rightarrow>
               (case collectFiles fs1 (BRUNO_DIR e) [] of
                  Inl err \<Rightarrow> (fs1, Thrown err)
                | Inr actual \<Rightarrow>
                    if diffs expected actual \<noteq> [] then (fs1, Exited 1) else (fs1, Returned))))"

text \<open>\<open>tempDir\<close>, the scratch directory of \<open>checkMode\<close>.\<close>

definition scratchDir :: "env \<Rightarrow> path" where
  "scratchDir e = pjoin (tmpdir e) (''bruno-check-'' @ showNat (now e))"

text \<open>\<open>checkMode\<close>: the \<open>finally\<close> block runs when the \<open>try\<close> block returns or throws;
  \<open>process.exit\<close> does not come back, so nothing runs after it.\<close>

definition checkMode :: "env \<Rightarrow> fs \<Rightarrow> fs \<times> outcome" where
  "checkMode e fs =
     (let tempDir = scratchDir e in
      (case checkBody e tempDir fs of
         (fs1, Exited code) \<Rightarrow> (fs1, Exited code)
       | (fs1, Returned) \<Rightarrow> (rmSync tempDir fs1, Returned)
       | (fs1, Thrown err) \<Rightarrow> (rmSync tempDir fs1, Thrown err)))"

text \<open>The default mode: wipe the target, generate, count the files.\<close>

definition generateMode :: "env \<Rightarrow> fs \<Rightarrow> fs \<times> outcome" where
  "generateMode e fs =
     (case generateCollection e (BRUNO_DIR e)
             (if existsSync fs (BRUNO_DIR e) then rmSync (BRUNO_DIR e) fs else fs) of
        (fs1, Some err) \<Rightarrow> (fs1, Thrown err)
      | (fs1, None) \<Rightarrow>
          (case collectFiles fs1 (BRUNO_DIR e) [] of
             Inl err \<Rightarrow> (fs1, Thrown err)
           | Inr files \<Rightarrow> (fs1, Returned)))"

subsection \<open>Notions used in the properties\<close>

text \<open>A predicate (the trimmed text after the path) that none of the branches of
  \<open>assertToJs\<close> recognizes.\<close>

definition unrecognized :: "string \<Rightarrow> bool" where
  "unrecognized rest =
     (countMatch rest = None \<and> rest \<noteq> ''not exists'' \<and> rest \<noteq> ''not isEmpty''
      \<and> rest \<noteq> ''isString'' \<and> rest \<noteq> ''isInteger'' \<and> rest \<noteq> ''isCollection''
      \<and> containsMatch rest = None \<and> matchesMatch rest = None \<and> opMatch rest = None)"

text \<open>The cumulative brace tally over the trimmed lines.\<close>

definition tally :: "string list \<Rightarrow> int" where
  "tally ls = sum_list (map (\<lambda>l. braceDelta (trim l)) ls)"

text \<open>Two states of one record: the comment, the method and the URL are the same.\<close>

definition sameRequest :: "request \<Rightarrow> request \<Rightarrow> bool" where
  "sameRequest c c' = (comment c' = comment c \<and> method' c' = method' c \<and> url c' = url c)"

text \<open>The tag that the record opened by a method line carries: the comment of the
  record a comment line has opened, when that record has no method yet.\<close>

definition openTag :: "parser \<Rightarrow> string option" where
  "openTag p =
     (case current p of
        None \<Rightarrow> None
      | Some cur \<Rightarrow> if truthy (method' cur) then None else comment cur)"

text \<open>What a run of \<open>generateCollection(out)\<close> may change, from \<open>fs\<close> to \<open>fs'\<close>:
  paths at or below \<open>out\<close>; missing directories above \<open>out\<close>, which are created;
  and, beside \<open>out\<close>, files with a name ending in \<open>.bru\<close> (the folder of a source
  file named \<open>...hurl\<close> is \<open>..\<close>). A directory stays a directory.\<close>

definition changedWithin :: "path \<Rightarrow> fs \<Rightarrow> fs \<Rightarrow> bool" where
  "changedWithin out fs fs' =
     (\<forall>q. (fmlookup fs q = Some Dir \<and> fmlookup fs' q = Some Dir)
        \<or> (fmlookup fs q \<noteq> Some Dir
            \<and> (fmlookup fs' q = fmlookup fs q
                \<or> atOrBelow out q
                \<or> (q \<noteq> [] \<and> atOrBelow q out \<and> fmlookup fs q = None \<and> fmlookup fs' q = Some Dir)
                \<or> (\<exists>f c. q = butlast out @ [f] \<and> endsWith ''.bru'' f
                       \<and> fmlookup fs' q = Some (File c)))))"

text \<open>Two file systems that agree but for files directly in \<open>root\<close> with a name
  ending in \<open>.bru\<close>, which the second may have or have with another content.\<close>

definition agreeBut :: "path \<Rightarrow> fs \<Rightarrow> fs \<Rightarrow> bool" where
  "agreeBut root fs fs' =
     (\<forall>q. fmlookup fs' q = fmlookup fs q
        \<or> (\<exists>f c. q = root @ [f] \<and> endsWith ''.bru'' f
               \<and> fmlookup fs q \<noteq> Some Dir \<and> fmlookup fs' q = Some (File c)))"

text \<open>Every entry of a file system lies in a directory.\<close>

definition wellFormed :: "fs \<Rightarrow> bool" where
  "wellFormed fs = fBall (fmdom fs) (\<lambda>q. isDir fs (butlast q))"

text \<open>A statement that runs alike, with the same result, on file systems that agree
  in the sense of \<open>agreeBut root\<close>.\<close>

definition simulates :: "path \<Rightarrow> stmt \<Rightarrow> bool" where
  "simulates root s =
     (\<forall>fs fs'. agreeBut root fs fs' \<longrightarrow>
        snd (s fs) = snd (s fs') \<and> agreeBut root (fst (s fs)) (fst (s fs')))"

text \<open>A statement that changes the file system only as \<open>changedWithin out\<close> allows.\<close>

definition frames :: "path \<Rightarrow> stmt \<Rightarrow> bool" where
  "frames out s = (\<forall>fs. changedWithin out fs (fst (s fs)))"

section \<open>Properties\<close>

subsection \<open>Basic facts about paths and directory entries\<close>

lemma readdirSync_entry:
  assumes "readdirSync fs d = Inr names" and "n \<in> set names"
  shows "validName n \<and> d @ [n] |\<in>| fmdom fs"
proof -
  from assms have "n |\<in>| last |`| ffilter (\<lambda>q. q \<noteq> [] \<and> butlast q = d \<and> validName (last q)) (fmdom fs)"
    by (auto simp: readdirSync_def split: if_splits)
  then obtain q where q: "q |\<in>| fmdom fs" "q \<noteq> []" "butlast q = d" "validName (last q)" "n = last q"
    by auto
  then have "d @ [n] = q"
    by (metis append_butlast_last_id)
  with q show ?thesis by simp
qed

lemma split_no_separator: "d \<notin> set s \<Longrightarrow> split d s = [s]"
  by (induction s) auto

lemma pjoin_validName: "validName n \<Longrightarrow> pjoin d n = d @ [n]"
  by (simp add: pjoin_def validName_def split_no_separator joinStep_def)

subsection \<open>The parser raises when no record is open\<close>

text \<open>
  C1 (the parser is total and never raises, also when an \<open>HTTP <code>\<close> line or an
  \<open>[Asserts]\<close> section stands before any comment or method line): the code assigns
  \<open>current.statusCode\<close> and pushes to \<open>current.asserts\<close> while \<open>current\<close> is still
  \<open>null\<close>, so both inputs end in a \<open>TypeError\<close> instead of a list of records.
\<close>

theorem parseHurl_raises_without_record:
  "parseHurlText ''HTTP 200'' = Inl TypeError
   \<and> parseHurlText ''[Asserts]\<newline>jsonpath \"$.user\" exists'' = Inl TypeError"
  by code_simp

subsection \<open>Value translation\<close>

text \<open>
  C9 (value translation): \<open>"{{slug}}"\<close> becomes the variable lookup, \<open>"auth_{{uid}}"\<close>
  the concatenation of the literal \<open>"auth_"\<close> and the lookup of \<open>uid\<close>, \<open>null\<close> the
  null marker, \<open>42\<close> the numeric literal; the function is total, and an input of no
  recognized shape (not \<open>null\<close>, a boolean, an integer, a decimal, a bare placeholder
  or a quoted string) comes back unchanged as a literal expression.
\<close>

theorem transformValue_examples_and_fallback:
  "transformValue ''\"{{slug}}\"'' = literal ''bru.getVar(\"slug\")''
   \<and> transformValue ''\"auth_{{uid}}\"'' = literal ''\"auth_\" + bru.getVar(\"uid\")''
   \<and> transformValue ''null'' = \<lparr>expr = ''null'', isNull = True, isLiteral = False\<rparr>
   \<and> transformValue ''42'' = literal ''42''
   \<and> (\<forall>raw. raw \<noteq> ''null'' \<and> raw \<noteq> ''true'' \<and> raw \<noteq> ''false''
          \<and> \<not> isInteger raw \<and> \<not> isDecimal raw \<and> varMatch raw = None
          \<and> \<not> (startsWith ''\"'' raw \<and> endsWith ''\"'' raw)
        \<longrightarrow> transformValue raw = literal raw)"
proof (intro conjI allI impI)
  show "transformValue ''\"{{slug}}\"'' = literal ''bru.getVar(\"slug\")''"
    by code_simp
  show "transformValue ''\"auth_{{uid}}\"'' = literal ''\"auth_\" + bru.getVar(\"uid\")''"
    by code_simp
  show "transformValue ''null'' = \<lparr>expr = ''null'', isNull = True, isLiteral = False\<rparr>"
    by (simp add: transformValue_def)
  show "transformValue ''42'' = literal ''42''"
    by code_simp
next
  fix raw
  assume "raw \<noteq> ''null'' \<and> raw \<noteq> ''true'' \<and> raw \<noteq> ''false''
          \<and> \<not> isInteger raw \<and> \<not> isDecimal raw \<and> varMatch raw = None
          \<and> \<not> (startsWith ''\"'' raw \<and> endsWith ''\"'' raw)"
  then show "transformValue raw = literal raw"
    unfolding transformValue_def
    by (simp only: simp_thms if_False if_True option.case split: if_splits)
qed

theorem transformValue_fallback_witness:
  "''/api/tags'' \<noteq> ''null'' \<and> \<not> isInteger ''/api/tags'' \<and> \<not> isDecimal ''/api/tags''
   \<and> varMatch ''/api/tags'' = None \<and> \<not> startsWith ''\"'' ''/api/tags''
   \<and> transformValue ''/api/tags'' = literal ''/api/tags''"
proof -
  have h: "''/api/tags'' \<noteq> ''null'' \<and> ''/api/tags'' \<noteq> ''true'' \<and> ''/api/tags'' \<noteq> ''false''
      \<and> \<not> isInteger ''/api/tags'' \<and> \<not> isDecimal ''/api/tags'' \<and> varMatch ''/api/tags'' = None
      \<and> \<not> (startsWith ''\"'' ''/api/tags'' \<and> endsWith ''\"'' ''/api/tags'')"
    by code_simp
  have g: "''/api/tags'' \<noteq> ''null'' \<and> \<not> isInteger ''/api/tags'' \<and> \<not> isDecimal ''/api/tags''
      \<and> varMatch ''/api/tags'' = None \<and> \<not> startsWith ''\"'' ''/api/tags''"
    by code_simp
  from transformValue_examples_and_fallback
  have fallback: "\<forall>raw. raw \<noteq> ''null'' \<and> raw \<noteq> ''true'' \<and> raw \<noteq> ''false''
          \<and> \<not> isInteger raw \<and> \<not> isDecimal raw \<and> varMatch raw = None
          \<and> \<not> (startsWith ''\"'' raw \<and> endsWith ''\"'' raw)
        \<longrightarrow> transformValue raw = literal raw"
    by (elim conjE)
  have c: "transformValue ''/api/tags'' = literal ''/api/tags''"
    by (rule fallback [rule_format, OF h])
  show ?thesis
    by (rule conjI [OF conjunct1 [OF g]] conjI [OF conjunct1 [OF conjunct2 [OF g]]]
        conjI [OF conjunct1 [OF conjunct2 [OF conjunct2 [OF g]]]]
        conjI [OF conjunct1 [OF conjunct2 [OF conjunct2 [OF conjunct2 [OF g]]]]]
        conjI [OF conjunct2 [OF conjunct2 [OF conjunct2 [OF conjunct2 [OF g]]]]] c)+
qed

subsection \<open>Assertion translation\<close>

text \<open>
  C10 (assertion translation): the three example lines become the equality
  expectation on \<open>res.body.user.username\<close>, the minimum-length expectation on
  \<open>res.body.tags\<close> and the missing-property expectation on \<open>res.body.article\<close> with
  the property \<open>body\<close>, the path being split into parent and last property.
\<close>

theorem assertToJs_examples:
  "assertToJs ''jsonpath \"$.user.username\" == \"bob\"''
     = Some ''expect(res.body.user.username).to.eql(\"bob\");''
   \<and> assertToJs ''jsonpath \"$.tags\" count >= 1''
     = Some ''expect(res.body.tags.length).to.be.at.least(1);''
   \<and> assertToJs ''jsonpath \"$.article.body\" not exists''
     = Some ''expect(res.body.article).to.not.have.property(\"body\");''
   \<and> jsonpathToPropertyCheck ''$.article.body'' = (''res.body.article'', ''body'')"
  by code_simp

subsection \<open>Assertion lines that are not of the jsonpath shape are dropped\<close>

lemma predicateToJs_not_empty: "predicateToJs l jp rest \<noteq> []"
proof (cases "countMatch rest")
  case (Some a)
  then show ?thesis by (cases a) (simp add: predicateToJs_def)
next
  case c: None
  show ?thesis
  proof (cases "containsMatch rest")
    case (Some a)
    with c show ?thesis by (simp add: predicateToJs_def)
  next
    case d: None
    show ?thesis
    proof (cases "matchesMatch rest")
      case (Some a)
      with c d show ?thesis by (simp add: predicateToJs_def)
    next
      case e: None
      show ?thesis
      proof (cases "opMatch rest")
        case (Some a)
        with c d e show ?thesis by (cases a) (simp add: predicateToJs_def)
      next
        case None
        with c d e show ?thesis by (simp add: predicateToJs_def)
      qed
    qed
  qed
qed

lemma assertLines_filter:
  "assertLines as = map (\<lambda>l. the (assertToJs l)) (filter (\<lambda>l. jpMatch l \<noteq> None) as)"
  by (induction as) (auto simp: assertToJs_def predicateToJs_not_empty split: option.splits)

text \<open>
  C2, as stated (no assertion line is dropped; the emitted statements and markers
  are as many as the stored lines), fails: the file below is parsed into one record
  that stores the line \<open>status == 200\<close>, \<open>assertToJs\<close> returns \<open>null\<close> for it, and
  the generated script has no line at all.
\<close>

theorem assert_line_dropped:
  "parseHurlText ''GET /x\<newline>HTTP 200\<newline>[Asserts]\<newline>status == 200''
     = Inr [(newRequest None)\<lparr>method' := Some ''GET'', url := Some ''/x'',
              statusCode := Some 200, asserts := [''status == 200'']\<rparr>]
   \<and> assertToJs ''status == 200'' = None
   \<and> scriptLines ((newRequest None)\<lparr>method' := Some ''GET'', url := Some ''/x'',
              statusCode := Some 200, asserts := [''status == 200'']\<rparr>) = []"
  by code_simp

text \<open>
  C2, amended: the translator is total; a stored line of the shape
  \<open>jsonpath "<path>" <predicate>\<close> is never dropped and yields one statement, in
  order, which is the marker \<open>// UNHANDLED ASSERT: <line>\<close> when the predicate is not
  recognized; a line that is not of that shape yields nothing. So the emitted
  statements and markers are as many as the stored lines of the jsonpath shape.
\<close>

theorem assert_lines_emitted:
  "assertLines (asserts request)
     = map (\<lambda>l. the (assertToJs l)) (filter (\<lambda>l. jpMatch l \<noteq> None) (asserts request))
   \<and> length (assertLines (asserts request))
     = length (filter (\<lambda>l. jpMatch l \<noteq> None) (asserts request))
   \<and> (\<forall>l. jpMatch l = None \<longrightarrow> assertToJs l = None)
   \<and> (\<forall>l jp rest. jpMatch l = Some (jp, rest) \<longrightarrow>
         assertToJs l \<noteq> None \<and> assertToJs l \<noteq> Some [] \<and>
         (unrecognized (trim rest) \<longrightarrow> assertToJs l = Some (''// UNHANDLED ASSERT: '' @ l)))"
proof (intro conjI allI impI)
  show "assertLines (asserts request)
     = map (\<lambda>l. the (assertToJs l)) (filter (\<lambda>l. jpMatch l \<noteq> None) (asserts request))"
    by (rule assertLines_filter)
  then show "length (assertLines (asserts request))
     = length (filter (\<lambda>l. jpMatch l \<noteq> None) (asserts request))"
    by simp
next
  fix l assume "jpMatch l = None"
  then show "assertToJs l = None" by (simp add: assertToJs_def)
next
  fix l jp rest assume m: "jpMatch l = Some (jp, rest)"
  then show "assertToJs l \<noteq> None" by (simp add: assertToJs_def)
  from m show "assertToJs l \<noteq> Some []" by (simp add: assertToJs_def predicateToJs_not_empty)
  assume "unrecognized (trim rest)"
  with m show "assertToJs l = Some (''// UNHANDLED ASSERT: '' @ l)"
    by (simp add: assertToJs_def predicateToJs_def unrecognized_def)
qed

theorem assert_lines_emitted_witness:
  "jpMatch ''status == 200'' = None
   \<and> jpMatch ''jsonpath \"$.user\" exists'' = Some (''$.user'', ''exists'')
   \<and> unrecognized (trim ''exists'')
   \<and> assertToJs ''status == 200'' = None
   \<and> assertToJs ''jsonpath \"$.user\" exists''
       = Some ''// UNHANDLED ASSERT: jsonpath \"$.user\" exists''
   \<and> assertLines [''status == 200'', ''jsonpath \"$.user\" exists'']
       = [''// UNHANDLED ASSERT: jsonpath \"$.user\" exists'']"
proof -
  have a: "jpMatch ''status == 200'' = None" by code_simp
  have b: "jpMatch ''jsonpath \"$.user\" exists'' = Some (''$.user'', ''exists'')" by code_simp
  have c: "unrecognized (trim ''exists'')" by code_simp
  have f: "filter (\<lambda>l. jpMatch l \<noteq> None) [''status == 200'', ''jsonpath \"$.user\" exists'']
      = [''jsonpath \"$.user\" exists'']"
    using a b by simp
  note t = assert_lines_emitted [of "(newRequest None)\<lparr>asserts :=
      [''status == 200'', ''jsonpath \"$.user\" exists'']\<rparr>"]
  from t a have d: "assertToJs ''status == 200'' = None" by blast
  from t b c have e: "assertToJs ''jsonpath \"$.user\" exists''
       = Some (''// UNHANDLED ASSERT: '' @ ''jsonpath \"$.user\" exists'')" by blast
  from t have "assertLines [''status == 200'', ''jsonpath \"$.user\" exists'']
      = map (\<lambda>l. the (assertToJs l))
          (filter (\<lambda>l. jpMatch l \<noteq> None) [''status == 200'', ''jsonpath \"$.user\" exists''])"
    by simp
  then have g: "assertLines [''status == 200'', ''jsonpath \"$.user\" exists'']
      = [the (assertToJs ''jsonpath \"$.user\" exists'')]"
    by (simp only: f list.map)
  show ?thesis
    using a b c d e g by simp
qed

subsection \<open>The body of a request\<close>

lemma brace_line_facts:
  "methodMatch ''{'' = None" "headerMatch ''{'' = None" "\<not> startsWith ''#'' ''{''"
  by code_simp+

lemma body_open:
  assumes "trim l = ''{''" and "state p = IDLE \<or> state p = HEADERS"
  shows "parseLine p l = Inr (p\<lparr>state := BODY, bodyLines := [l], braceDepth := 1\<rparr>)"
  using assms by (auto simp: parseLine_def brace_line_facts)

lemma braceDelta_Nil: "braceDelta [] = 0"
  by (simp add: braceDelta_def)

lemma body_step:
  assumes "state p = BODY" and "braceDepth p + braceDelta (trim l) \<noteq> 0"
  shows "parseLine p l = Inr (p\<lparr>bodyLines := bodyLines p @ [l],
                                 braceDepth := braceDepth p + braceDelta (trim l)\<rparr>)"
  using assms by (auto simp: parseLine_def Let_def braceDelta_Nil)

lemma body_close:
  assumes "state p = BODY" and "braceDepth p \<noteq> 0" and "braceDepth p + braceDelta (trim l) = 0"
  shows "parseLine p l = Inr ((finishBody (p\<lparr>bodyLines := bodyLines p @ [l], braceDepth := 0\<rparr>))\<lparr>state := IDLE\<rparr>)"
proof -
  from assms have "trim l \<noteq> []" by (auto simp: braceDelta_Nil)
  with assms show ?thesis by (simp add: parseLine_def Let_def)
qed

lemma body_lines:
  assumes "state p = BODY"
      and "\<forall>k. 0 < k \<and> k \<le> length ls \<longrightarrow> braceDepth p + tally (take k ls) \<noteq> 0"
  shows "parseLines p ls = Inr (p\<lparr>bodyLines := bodyLines p @ ls, braceDepth := braceDepth p + tally ls\<rparr>)"
  using assms
proof (induction ls arbitrary: p)
  case Nil
  then show ?case by (simp add: tally_def)
next
  case (Cons l ls)
  let ?q = "p\<lparr>bodyLines := bodyLines p @ [l], braceDepth := braceDepth p + braceDelta (trim l)\<rparr>"
  from Cons.prems(2) [rule_format, of 1] have d: "braceDepth p + braceDelta (trim l) \<noteq> 0"
    by (simp add: tally_def)
  with Cons.prems(1) have step: "parseLine p l = Inr ?q"
    by (rule body_step)
  have "\<forall>k. 0 < k \<and> k \<le> length ls \<longrightarrow> braceDepth ?q + tally (take k ls) \<noteq> 0"
  proof (intro allI impI)
    fix k assume "0 < k \<and> k \<le> length ls"
    with Cons.prems(2) [rule_format, of "Suc k"] show "braceDepth ?q + tally (take k ls) \<noteq> 0"
      by (simp add: tally_def add.assoc)
  qed
  with Cons.IH [of ?q] Cons.prems(1)
  have "parseLines ?q ls = Inr (?q\<lparr>bodyLines := bodyLines ?q @ ls, braceDepth := braceDepth ?q + tally ls\<rparr>)"
    by simp
  with step show ?case
    by (simp add: tally_def add.assoc)
qed

lemma parseLines_append:
  "parseLines p (xs @ ys) = (case parseLines p xs of Inl e \<Rightarrow> Inl e | Inr q \<Rightarrow> parseLines q ys)"
  by (induction xs arbitrary: p) (auto split: sum.splits)

text \<open>
  C6 (body brace tracking): a body opened by a line that is exactly \<open>{\<close>, read in the
  idle or the header state, keeps the parser in body mode as long as the cumulative
  tally of \<open>{\<close> minus \<open>}\<close> over the trimmed lines is not zero; the line that brings
  the tally back to zero, and no earlier line with a \<open>}\<close>, finalizes the body, which
  is all lines joined by line feeds.
\<close>

theorem body_closes_when_tally_returns_to_zero:
  assumes st: "state p = IDLE \<or> state p = HEADERS"
      and l0: "trim l0 = ''{''"
      and opn: "\<forall>k. k \<le> length ls \<longrightarrow> tally (l0 # take k ls) \<noteq> 0"
      and cls: "tally (l0 # ls @ [lz]) = 0"
  shows "(\<forall>k. k \<le> length ls \<longrightarrow>
            parseLines p (l0 # take k ls)
              = Inr (p\<lparr>state := BODY, bodyLines := l0 # take k ls,
                       braceDepth := tally (l0 # take k ls)\<rparr>))
       \<and> parseLines p (l0 # ls @ [lz])
           = Inr ((finishBody (p\<lparr>bodyLines := l0 # ls @ [lz], braceDepth := 0\<rparr>))\<lparr>state := IDLE\<rparr>)
       \<and> (\<forall>cur. current p = Some cur \<longrightarrow>
            parseLines p (l0 # ls @ [lz])
              = Inr (p\<lparr>current := Some (cur\<lparr>body := Some (join [newline] (l0 # ls @ [lz]))\<rparr>),
                       state := IDLE, bodyLines := [], braceDepth := 0\<rparr>))"
proof -
  let ?b = "p\<lparr>state := BODY, bodyLines := [l0], braceDepth := 1\<rparr>"
  have one: "braceDelta ''{'' = 1" by (simp add: braceDelta_def)
  have t0: "tally (l0 # xs) = 1 + tally xs" for xs
    using l0 one by (simp add: tally_def)
  have first: "parseLine p l0 = Inr ?b"
    using l0 st by (rule body_open)
  have run: "parseLines ?b (take k ls)
      = Inr (?b\<lparr>bodyLines := l0 # take k ls, braceDepth := 1 + tally (take k ls)\<rparr>)"
    if k: "k \<le> length ls" for k
  proof -
    have "\<forall>j. 0 < j \<and> j \<le> length (take k ls) \<longrightarrow> braceDepth ?b + tally (take j (take k ls)) \<noteq> 0"
    proof (intro allI impI)
      fix j assume j: "0 < j \<and> j \<le> length (take k ls)"
      with k have "j \<le> k" by simp
      then have "take j (take k ls) = take j ls" by (simp add: min_def)
      moreover from j k have "j \<le> length ls" by simp
      ultimately show "braceDepth ?b + tally (take j (take k ls)) \<noteq> 0"
        using opn [rule_format, of j] by (simp add: t0)
    qed
    then have "parseLines ?b (take k ls)
        = Inr (?b\<lparr>bodyLines := bodyLines ?b @ take k ls, braceDepth := braceDepth ?b + tally (take k ls)\<rparr>)"
      by (intro body_lines) simp_all
    then show ?thesis by simp
  qed
  have part1: "\<forall>k. k \<le> length ls \<longrightarrow>
            parseLines p (l0 # take k ls)
              = Inr (p\<lparr>state := BODY, bodyLines := l0 # take k ls,
                       braceDepth := tally (l0 # take k ls)\<rparr>)"
    using first run by (simp add: t0)
  let ?c = "?b\<lparr>bodyLines := l0 # ls, braceDepth := 1 + tally ls\<rparr>"
  have all: "parseLines ?b ls = Inr ?c"
    using run [of "length ls"] by simp
  have open_c: "braceDepth ?c \<noteq> 0"
    using opn [rule_format, of "length ls"] by (simp add: t0)
  have "tally (ls @ [lz]) = tally ls + braceDelta (trim lz)"
    by (simp add: tally_def)
  with cls t0 [of "ls @ [lz]"] have close_c: "braceDepth ?c + braceDelta (trim lz) = 0"
    by simp
  have "parseLine ?c lz
      = Inr ((finishBody (?c\<lparr>bodyLines := bodyLines ?c @ [lz], braceDepth := 0\<rparr>))\<lparr>state := IDLE\<rparr>)"
    using open_c close_c by (intro body_close) simp_all
  then have last: "parseLine ?c lz
      = Inr ((finishBody (p\<lparr>bodyLines := l0 # ls @ [lz], braceDepth := 0\<rparr>))\<lparr>state := IDLE\<rparr>)"
    by (simp add: finishBody_def split: option.splits)
  have part2: "parseLines p (l0 # ls @ [lz])
           = Inr ((finishBody (p\<lparr>bodyLines := l0 # ls @ [lz], braceDepth := 0\<rparr>))\<lparr>state := IDLE\<rparr>)"
    using first all last by (simp add: parseLines_append)
  have part3: "\<forall>cur. current p = Some cur \<longrightarrow>
            parseLines p (l0 # ls @ [lz])
              = Inr (p\<lparr>current := Some (cur\<lparr>body := Some (join [newline] (l0 # ls @ [lz]))\<rparr>),
                       state := IDLE, bodyLines := [], braceDepth := 0\<rparr>)"
    using part2 by (simp add: finishBody_def)
  from part1 part2 part3 show ?thesis by (intro conjI)
qed

theorem body_closes_witness:
  "tally [''{'', ''  \"a\": {'', ''    \"b\": 1'', ''  }''] = 1
   \<and> tally [''{'', ''  \"a\": {'', ''    \"b\": 1'', ''  }'', ''}''] = 0
   \<and> parseLines (initial\<lparr>current := Some (newRequest None), state := HEADERS\<rparr>)
         [''{'', ''  \"a\": {'', ''    \"b\": 1'', ''  }'']
       = Inr (initial\<lparr>current := Some (newRequest None), state := BODY,
                bodyLines := [''{'', ''  \"a\": {'', ''    \"b\": 1'', ''  }''], braceDepth := 1\<rparr>)
   \<and> parseLines (initial\<lparr>current := Some (newRequest None), state := HEADERS\<rparr>)
         [''{'', ''  \"a\": {'', ''    \"b\": 1'', ''  }'', ''}'']
       = Inr (initial\<lparr>current := Some ((newRequest None)\<lparr>body :=
                  Some ''{\<newline>  \"a\": {\<newline>    \"b\": 1\<newline>  }\<newline>}''\<rparr>),
                state := IDLE, bodyLines := [], braceDepth := 0\<rparr>)"
proof -
  let ?p = "initial\<lparr>current := Some (newRequest None), state := HEADERS\<rparr>"
  let ?ls = "[''  \"a\": {'', ''    \"b\": 1'', ''  }'']"
  have st: "state ?p = IDLE \<or> state ?p = HEADERS" by simp
  have l0: "trim ''{'' = ''{''" by code_simp
  have t0: "tally [''{''] = 1" by code_simp
  have t1: "tally [''{'', ''  \"a\": {''] = 2" by code_simp
  have t2: "tally [''{'', ''  \"a\": {'', ''    \"b\": 1''] = 2" by code_simp
  have t3: "tally [''{'', ''  \"a\": {'', ''    \"b\": 1'', ''  }''] = 1" by code_simp
  have t4: "tally [''{'', ''  \"a\": {'', ''    \"b\": 1'', ''  }'', ''}''] = 0" by code_simp
  have opn: "\<forall>k. k \<le> length ?ls \<longrightarrow> tally (''{'' # take k ?ls) \<noteq> 0"
  proof (intro allI impI)
    fix k assume "k \<le> length ?ls"
    then consider "k = 0" | "k = 1" | "k = 2" | "k = 3" by fastforce
    then show "tally (''{'' # take k ?ls) \<noteq> 0"
    proof cases
      case 1
      with t0 show ?thesis by simp
    next
      case 2
      with t1 show ?thesis by simp
    next
      case 3
      with t2 show ?thesis by (simp add: numeral_2_eq_2)
    next
      case 4
      with t3 show ?thesis by simp
    qed
  qed
  have cls: "tally (''{'' # ?ls @ [''}'']) = 0"
    using t4 by simp
  note main = body_closes_when_tally_returns_to_zero [OF st l0 opn cls]
  have cur: "current ?p = Some (newRequest None)" by simp
  have k3: "(3::nat) \<le> length ?ls" by simp
  have tk: "take 3 ?ls = ?ls" by simp
  note a = main [THEN conjunct1, rule_format, OF k3, unfolded tk]
  note b = main [THEN conjunct2, THEN conjunct2, rule_format, OF cur]
  have j: "join [newline] [''{'', ''  \"a\": {'', ''    \"b\": 1'', ''  }'', ''}''] = ''{\<newline>  \"a\": {\<newline>    \"b\": 1\<newline>  }\<newline>}''"
    by code_simp
  have ra: "?p\<lparr>state := BODY, bodyLines := ''{'' # ?ls, braceDepth := 1\<rparr>
      = initial\<lparr>current := Some (newRequest None), state := BODY,
                bodyLines := [''{'', ''  \"a\": {'', ''    \"b\": 1'', ''  }''], braceDepth := 1\<rparr>"
    by simp
  have rb: "?p\<lparr>current := Some ((newRequest None)\<lparr>body :=
                  Some ''{\<newline>  \"a\": {\<newline>    \"b\": 1\<newline>  }\<newline>}''\<rparr>),
                state := IDLE, bodyLines := [], braceDepth := 0\<rparr>
      = initial\<lparr>current := Some ((newRequest None)\<lparr>body :=
                  Some ''{\<newline>  \"a\": {\<newline>    \"b\": 1\<newline>  }\<newline>}''\<rparr>),
                state := IDLE, bodyLines := [], braceDepth := 0\<rparr>"
    by simp
  have a': "parseLines ?p [''{'', ''  \"a\": {'', ''    \"b\": 1'', ''  }'']
       = Inr (initial\<lparr>current := Some (newRequest None), state := BODY,
                bodyLines := [''{'', ''  \"a\": {'', ''    \"b\": 1'', ''  }''], braceDepth := 1\<rparr>)"
    using a by (simp only: t3 ra)
  have b': "parseLines ?p [''{'', ''  \"a\": {'', ''    \"b\": 1'', ''  }'', ''}'']
       = Inr (initial\<lparr>current := Some ((newRequest None)\<lparr>body :=
                  Some ''{\<newline>  \"a\": {\<newline>    \"b\": 1\<newline>  }\<newline>}''\<rparr>),
                state := IDLE, bodyLines := [], braceDepth := 0\<rparr>)"
    using b by (simp only: j rb append.simps)
  from t3 t4 a' b' show ?thesis by (intro conjI)
qed

subsection \<open>Records are opened by comment and method lines\<close>

lemma restOfLine_Some: "restOfLine b s = Some r \<Longrightarrow> r \<noteq> []"
  by (auto simp: restOfLine_def Let_def split: if_splits)

lemma startsWith_Cons: "startsWith (c # v) t \<Longrightarrow> t \<noteq> [] \<and> hd t = c"
  by (cases t) (auto simp: startsWith_def)

lemma startsWith_hash: "startsWith ''#'' t \<longleftrightarrow> t \<noteq> [] \<and> hd t = CHR ''#''"
  by (cases t) (auto simp: startsWith_def)

lemma methodMatch_verb:
  assumes "methodMatch t = Some (m, u)"
  shows "m \<in> {''GET'', ''POST'', ''PUT'', ''DELETE'', ''PATCH''} \<and> startsWith m t \<and> u \<noteq> []"
proof -
  have "restOfLine True (drop (length m) t) = Some u \<and> startsWith m t
      \<and> m \<in> {''GET'', ''POST'', ''PUT'', ''DELETE'', ''PATCH''}"
    using assms unfolding methodMatch_def
    by (simp only: find.simps split: if_splits option.splits) auto
  then show ?thesis by (auto dest: restOfLine_Some)
qed

lemma methodMatch_Some:
  assumes "methodMatch t = Some (m, u)"
  shows "t \<noteq> [] \<and> \<not> startsWith ''#'' t \<and> truthy (Some m) \<and> u \<noteq> []"
proof -
  from methodMatch_verb [OF assms]
  have m: "m \<in> {''GET'', ''POST'', ''PUT'', ''DELETE'', ''PATCH''}" and sw: "startsWith m t" and u: "u \<noteq> []"
    by blast+
  from m obtain c v where cv: "m = c # v" "c \<noteq> CHR ''#''"
    by auto
  with sw have "t \<noteq> [] \<and> hd t = c" by (simp add: startsWith_Cons)
  with cv u show ?thesis by (simp add: startsWith_hash truthy_def)
qed

lemma sameRequest_refl: "sameRequest c c"
  by (simp add: sameRequest_def)

lemma sameRequest_trans: "sameRequest a b \<Longrightarrow> sameRequest b c \<Longrightarrow> sameRequest a c"
  by (simp add: sameRequest_def)

lemma finishBody_facts:
  "requests (finishBody p) = requests p" "state (finishBody p) = state p"
  "current p = None \<Longrightarrow> current (finishBody p) = None"
  "current p = Some c \<Longrightarrow> \<exists>c'. current (finishBody p) = Some c' \<and> sameRequest c c'"
  by (auto simp: finishBody_def sameRequest_def split: option.splits)

lemma pushCurrent_None: "current p = None \<Longrightarrow> pushCurrent p = p"
  by (simp add: pushCurrent_def)

lemma pushCurrent_current: "current (pushCurrent p) = None"
  by (auto simp: pushCurrent_def Let_def split: option.splits)

lemma pushCurrent_method:
  assumes "current p = Some c" and "truthy (method' c)"
  shows "\<exists>c'. sameRequest c c' \<and> requests (pushCurrent p) = requests p @ [c']"
proof -
  from finishBody_facts(4) [OF assms(1)] obtain c' where
    c': "current (finishBody p) = Some c'" "sameRequest c c'" by blast
  with assms(2) have "truthy (method' c')" by (simp add: sameRequest_def)
  with c' assms(1) show ?thesis
    by (auto simp: pushCurrent_def Let_def finishBody_facts(1))
qed

lemma pushCurrent_no_method:
  assumes "current p = Some c" and "\<not> truthy (method' c)"
  shows "requests (pushCurrent p) = requests p"
proof -
  from finishBody_facts(4) [OF assms(1)] obtain c' where
    c': "current (finishBody p) = Some c'" "sameRequest c c'" by blast
  with assms(2) have "\<not> truthy (method' c')" by (simp add: sameRequest_def)
  with c' assms(1) show ?thesis
    by (auto simp: pushCurrent_def Let_def finishBody_facts(1))
qed

lemma comment_step:
  assumes "trim l \<noteq> []" and "startsWith ''#'' (trim l)" and "state p \<noteq> BODY"
  shows "parseLine p l = Inr ((pushCurrent p)\<lparr>current := Some (newRequest (Some (stripHash (trim l)))),
                              state := IDLE\<rparr>)"
  using assms by (simp add: parseLine_def)

lemma method_step:
  assumes "methodMatch (trim l) = Some (m, u)" and "state p \<noteq> BODY"
  shows "parseLine p l = methodLine p (m, u)"
  using assms methodMatch_Some [OF assms(1)] by (simp add: parseLine_def)

lemma other_step:
  assumes cur: "current p = Some c"
      and no: "\<not> (state p \<noteq> BODY \<and> (startsWith ''#'' (trim l) \<or> methodMatch (trim l) \<noteq> None))"
  shows "\<exists>q c'. parseLine p l = Inr q \<and> requests q = requests p
          \<and> current q = Some c' \<and> sameRequest c c'"
proof (cases "trim l = []")
  case True
  with cur show ?thesis by (auto simp: parseLine_def Let_def sameRequest_refl)
next
  case ne: False
  show ?thesis
  proof (cases "state p = BODY")
    case True
    let ?p1 = "p\<lparr>bodyLines := bodyLines p @ [l], braceDepth := braceDepth p + braceDelta (trim l)\<rparr>"
    have c1: "current ?p1 = Some c" using cur by simp
    from finishBody_facts(4) [OF c1] finishBody_facts(1) [of ?p1]
    show ?thesis using True ne cur
      by (auto simp: parseLine_def Let_def sameRequest_refl)
  next
    case nb: False
    with no have nc: "\<not> startsWith ''#'' (trim l)" and nm: "methodMatch (trim l) = None"
      by blast+
    show ?thesis
    proof (cases "state p = HEADERS \<and> headerMatch (trim l) \<noteq> None")
      case True
      with ne nb nc nm cur show ?thesis
        by (simp add: parseLine_def Let_def withCurrent_def sameRequest_def)
    next
      case nh: False
      show ?thesis
      proof (cases "trim l = ''{'' \<and> (state p = HEADERS \<or> state p = IDLE)")
        case True
        with ne nb nc nm nh cur show ?thesis
          by (auto simp: parseLine_def Let_def sameRequest_refl)
      next
        case nbr: False
        show ?thesis
        proof (cases "statusMatch (trim l) \<noteq> None")
          case True
          with ne nb nc nm nh nbr cur show ?thesis
            by (simp add: parseLine_def Let_def withCurrent_def sameRequest_def)
        next
          case ns: False
          show ?thesis
          proof (cases "trim l = ''[Asserts]'' \<or> trim l = ''[Captures]''")
            case True
            with ne nb nc nm nh nbr ns cur show ?thesis
              by (auto simp: parseLine_def Let_def sameRequest_refl)
          next
            case nsec: False
            show ?thesis
            proof (cases "state p = CAPTURES")
              case True
              with ne nb nc nm nh nbr ns nsec cur show ?thesis
                by (cases "captureMatch (trim l)")
                   (auto simp: parseLine_def Let_def withCurrent_def sameRequest_def)
            next
              case ncap: False
              with ne nb nc nm nh nbr ns nsec cur show ?thesis
                by (cases "state p = ASSERTS")
                   (auto simp: parseLine_def Let_def withCurrent_def sameRequest_def)
            qed
          qed
        qed
      qed
    qed
  qed
qed

lemma methodLine_result:
  "\<exists>q c2. methodLine p (m, u) = Inr q \<and> state q = HEADERS \<and> current q = Some c2
     \<and> method' c2 = Some m \<and> url c2 = Some u \<and> comment c2 = openTag p
     \<and> (case current p of
           None \<Rightarrow> requests q = requests p
         | Some c \<Rightarrow> if truthy (method' c)
                      then (\<exists>c'. sameRequest c c' \<and> requests q = requests p @ [c'])
                      else requests q = requests p)"
proof (cases "current p")
  case None
  then show ?thesis
    by (simp add: methodLine_def withCurrent_def openTag_def newRequest_def)
next
  case (Some c)
  show ?thesis
  proof (cases "truthy (method' c)")
    case True
    from pushCurrent_method [OF Some True] obtain c' where
      "sameRequest c c'" "requests (pushCurrent p) = requests p @ [c']" by blast
    with Some True show ?thesis
      by (simp add: methodLine_def withCurrent_def openTag_def newRequest_def)
  next
    case False
    with Some show ?thesis
      by (simp add: methodLine_def withCurrent_def openTag_def)
  qed
qed

lemma pushCurrent_ext: "\<exists>ext. requests (pushCurrent p) = requests p @ ext"
proof (cases "current p")
  case None
  then show ?thesis by (simp add: pushCurrent_None)
next
  case (Some c)
  then show ?thesis
    using pushCurrent_method [OF Some] pushCurrent_no_method [OF Some]
    by (cases "truthy (method' c)") auto
qed

text \<open>With a record open, no line raises, a record stays open, and \<open>requests\<close> only
  grows.\<close>

lemma open_step:
  assumes cur: "current p = Some c"
  shows "\<exists>q d ext. parseLine p l = Inr q \<and> current q = Some d \<and> requests q = requests p @ ext"
proof (cases "state p \<noteq> BODY \<and> (startsWith ''#'' (trim l) \<or> methodMatch (trim l) \<noteq> None)")
  case opens: True
  show ?thesis
  proof (cases "startsWith ''#'' (trim l)")
    case True
    then have "trim l \<noteq> []" by (simp add: startsWith_hash)
    from comment_step [OF this True] opens pushCurrent_ext [of p] show ?thesis
      by auto
  next
    case False
    with opens obtain m u where mu: "methodMatch (trim l) = Some (m, u)" by auto
    from method_step [OF mu] opens have "parseLine p l = methodLine p (m, u)" by simp
    with methodLine_result [of p m u] cur show ?thesis
      by (cases "truthy (method' c)") auto
  qed
next
  case False
  from other_step [OF cur False] show ?thesis by auto
qed

lemma open_run:
  assumes "current p = Some c"
  shows "\<exists>q d ext. parseLines p ls = Inr q \<and> current q = Some d \<and> requests q = requests p @ ext"
  using assms
proof (induction ls arbitrary: p c)
  case Nil
  then show ?case by simp
next
  case (Cons l ls)
  from open_step [OF Cons.prems] obtain q d ext where
    q: "parseLine p l = Inr q" "current q = Some d" "requests q = requests p @ ext" by blast
  from Cons.IH [OF q(2)] obtain q' d' ext' where
    "parseLines q ls = Inr q'" "current q' = Some d'" "requests q' = requests q @ ext'" by blast
  with q show ?case by simp
qed

text \<open>An open record with a method stays open unchanged in comment, method and URL,
  or is pushed as the next record.\<close>

lemma method_record_step:
  assumes cur: "current p = Some c" and m: "truthy (method' c)"
  shows "\<exists>q d. parseLine p l = Inr q \<and> current q = Some d
           \<and> ((sameRequest c d \<and> requests q = requests p)
              \<or> (\<exists>c'. sameRequest c c' \<and> requests q = requests p @ [c']))"
proof (cases "state p \<noteq> BODY \<and> (startsWith ''#'' (trim l) \<or> methodMatch (trim l) \<noteq> None)")
  case opens: True
  from pushCurrent_method [OF cur m] obtain c' where
    c': "sameRequest c c'" "requests (pushCurrent p) = requests p @ [c']" by blast
  show ?thesis
  proof (cases "startsWith ''#'' (trim l)")
    case True
    then have "trim l \<noteq> []" by (simp add: startsWith_hash)
    from comment_step [OF this True] opens c' show ?thesis
      by auto
  next
    case False
    with opens obtain mm u where mu: "methodMatch (trim l) = Some (mm, u)" by auto
    from method_step [OF mu] opens have "parseLine p l = methodLine p (mm, u)" by simp
    with methodLine_result [of p mm u] cur m show ?thesis
      by auto
  qed
next
  case False
  from other_step [OF cur False] show ?thesis by auto
qed

lemma method_record_run:
  assumes "current p = Some c" and "truthy (method' c)"
  shows "\<exists>q d. parseLines p ls = Inr q \<and> current q = Some d
           \<and> ((sameRequest c d \<and> requests q = requests p)
              \<or> (\<exists>c' ext. sameRequest c c' \<and> requests q = requests p @ c' # ext))"
  using assms
proof (induction ls arbitrary: p c)
  case Nil
  then show ?case by (simp add: sameRequest_refl)
next
  case (Cons l ls)
  from method_record_step [OF Cons.prems] obtain q d where
    q: "parseLine p l = Inr q" "current q = Some d"
    and alt: "(sameRequest c d \<and> requests q = requests p)
              \<or> (\<exists>c'. sameRequest c c' \<and> requests q = requests p @ [c'])" by blast
  from alt show ?case
  proof
    assume same: "sameRequest c d \<and> requests q = requests p"
    with Cons.prems(2) have "truthy (method' d)" by (simp add: sameRequest_def)
    from Cons.IH [OF q(2) this] obtain q' d' where
      q': "parseLines q ls = Inr q'" "current q' = Some d'"
        "(sameRequest d d' \<and> requests q' = requests q)
          \<or> (\<exists>c' ext. sameRequest d c' \<and> requests q' = requests q @ c' # ext)" by blast
    from q'(3) same have "(sameRequest c d' \<and> requests q' = requests p)
          \<or> (\<exists>c' ext. sameRequest c c' \<and> requests q' = requests p @ c' # ext)"
      by (metis sameRequest_trans)
    with q q' show ?thesis by simp
  next
    assume "\<exists>c'. sameRequest c c' \<and> requests q = requests p @ [c']"
    then obtain c' where c': "sameRequest c c'" "requests q = requests p @ [c']" by blast
    from open_run [OF q(2)] obtain q' d' ext where
      "parseLines q ls = Inr q'" "current q' = Some d'" "requests q' = requests q @ ext" by blast
    with q c' show ?thesis by auto
  qed
qed

lemma keep_run:
  assumes "current p = Some c"
      and "list_all (\<lambda>l. \<not> startsWith ''#'' (trim l) \<and> methodMatch (trim l) = None) ls"
  shows "\<exists>q c'. parseLines p ls = Inr q \<and> current q = Some c' \<and> sameRequest c c'
           \<and> requests q = requests p"
  using assms
proof (induction ls arbitrary: p c)
  case Nil
  then show ?case by (simp add: sameRequest_refl)
next
  case (Cons l ls)
  from Cons.prems(2) have no: "\<not> (state p \<noteq> BODY \<and> (startsWith ''#'' (trim l) \<or> methodMatch (trim l) \<noteq> None))"
    by simp
  from other_step [OF Cons.prems(1) no] obtain q c' where
    q: "parseLine p l = Inr q" "requests q = requests p" "current q = Some c'" "sameRequest c c'"
    by blast
  from Cons.prems(2) have "list_all (\<lambda>l. \<not> startsWith ''#'' (trim l) \<and> methodMatch (trim l) = None) ls"
    by simp
  from Cons.IH [OF q(3) this] obtain q' c'' where
    "parseLines q ls = Inr q'" "current q' = Some c''" "sameRequest c' c''" "requests q' = requests q"
    by blast
  with q show ?case
    by (auto intro: sameRequest_trans)
qed

text \<open>
  C7 (back-to-back requests): two method lines \<open>l1\<close> and \<open>l2\<close> that the parser reads
  outside a body, with no comment line and no method line between them (the lines
  \<open>mid\<close> between them may be the headers, body, status, captures and assertions of
  the first request; adjacent lines are the case \<open>mid = []\<close>), yield two separate
  records next to each other in the result, whatever follows: the first has the
  method and URL of \<open>l1\<close> and keeps the tag of the open comment, the second has the
  method and URL of \<open>l2\<close> and no comment.
\<close>

theorem back_to_back_requests:
  assumes pre: "parseLines initial pre = Inr p" and sp: "state p \<noteq> BODY"
      and m1: "methodMatch (trim l1) = Some (m1, u1)"
      and mid: "list_all (\<lambda>l. \<not> startsWith ''#'' (trim l) \<and> methodMatch (trim l) = None) mid"
      and q: "parseLines p (l1 # mid) = Inr q" and sq: "state q \<noteq> BODY"
      and m2: "methodMatch (trim l2) = Some (m2, u2)"
  shows "\<exists>rs i. parseHurlLines (pre @ l1 # mid @ l2 # post) = Inr rs \<and> Suc i < length rs
           \<and> comment (rs ! i) = openTag p \<and> method' (rs ! i) = Some m1 \<and> url (rs ! i) = Some u1
           \<and> comment (rs ! Suc i) = None \<and> method' (rs ! Suc i) = Some m2
           \<and> url (rs ! Suc i) = Some u2"
proof -
  from method_step [OF m1 sp] have s1: "parseLine p l1 = methodLine p (m1, u1)" .
  from methodLine_result [of p m1 u1] obtain q1 c1 where
    q1: "methodLine p (m1, u1) = Inr q1" "current q1 = Some c1"
        "method' c1 = Some m1" "url c1 = Some u1" "comment c1 = openTag p"
    by blast
  from keep_run [OF q1(2) mid] obtain q' c1' where
    k: "parseLines q1 mid = Inr q'" "current q' = Some c1'" "sameRequest c1 c1'"
    by blast
  from s1 q1(1) k(1) q have "q' = q" by simp
  with k have cq: "current q = Some c1'" by simp
  from k(3) q1 have c1': "method' c1' = Some m1" "url c1' = Some u1" "comment c1' = openTag p"
    by (simp_all add: sameRequest_def)
  from methodMatch_Some [OF m1] c1' have t1: "truthy (method' c1')"
    by simp
  from method_step [OF m2 sq] have s2: "parseLine q l2 = methodLine q (m2, u2)" .
  from methodLine_result [of q m2 u2] cq t1 obtain q3 c2 c1'' where
    q3: "methodLine q (m2, u2) = Inr q3" "current q3 = Some c2"
        "method' c2 = Some m2" "url c2 = Some u2" "comment c2 = None"
        "sameRequest c1' c1''" "requests q3 = requests q @ [c1'']"
    by (auto simp: openTag_def)
  from methodMatch_Some [OF m2] q3(3) have t2: "truthy (method' c2)"
    by simp
  from method_record_run [OF q3(2) t2, of post] obtain q4 d where
    q4: "parseLines q3 post = Inr q4" "current q4 = Some d"
    and alt: "(sameRequest c2 d \<and> requests q4 = requests q3)
              \<or> (\<exists>c' ext. sameRequest c2 c' \<and> requests q4 = requests q3 @ c' # ext)"
    by blast
  have run: "parseLines initial (pre @ l1 # mid @ l2 # post) = Inr q4"
  proof -
    have "parseLines initial (pre @ l1 # mid @ l2 # post)
        = parseLines initial (pre @ (l1 # mid) @ (l2 # post))" by simp
    also have "\<dots> = parseLines q (l2 # post)"
      using pre q by (simp only: parseLines_append sum.case)
    also have "\<dots> = Inr q4"
      using s2 q3(1) q4(1) by simp
    finally show ?thesis .
  qed
  then have res: "parseHurlLines (pre @ l1 # mid @ l2 # post) = Inr (requests (pushCurrent q4))"
    by (simp add: parseHurlLines_def)
  have "\<exists>c2' rest. requests (pushCurrent q4) = requests q @ c1'' # c2' # rest \<and> sameRequest c2 c2'"
    using alt
  proof
    assume a: "sameRequest c2 d \<and> requests q4 = requests q3"
    with t2 have "truthy (method' d)" by (simp add: sameRequest_def)
    from pushCurrent_method [OF q4(2) this] obtain d' where
      "sameRequest d d'" "requests (pushCurrent q4) = requests q4 @ [d']" by blast
    with a q3(7) show ?thesis
      by (auto intro: sameRequest_trans)
  next
    assume "\<exists>c' ext. sameRequest c2 c' \<and> requests q4 = requests q3 @ c' # ext"
    then obtain c' ext where b: "sameRequest c2 c'" "requests q4 = requests q3 @ c' # ext" by blast
    from pushCurrent_ext [of q4] obtain ext2 where "requests (pushCurrent q4) = requests q4 @ ext2"
      by blast
    with b q3(7) show ?thesis by auto
  qed
  then obtain c2' rest where
    rs: "requests (pushCurrent q4) = requests q @ c1'' # c2' # rest" and s: "sameRequest c2 c2'"
    by blast
  let ?rs = "requests (pushCurrent q4)" and ?i = "length (requests q)"
  have "Suc ?i < length ?rs" by (simp add: rs)
  moreover have "?rs ! ?i = c1''" by (simp add: rs)
  moreover have "?rs ! Suc ?i = c2'" by (simp add: rs nth_append)
  ultimately show ?thesis
    using res q3 c1' s by (auto simp: sameRequest_def)
qed

theorem back_to_back_witness:
  "parseLines initial [''# first''] = Inr (initial\<lparr>current := Some (newRequest (Some ''first''))\<rparr>)
   \<and> state (initial\<lparr>current := Some (newRequest (Some ''first''))\<rparr>) \<noteq> BODY
   \<and> openTag (initial\<lparr>current := Some (newRequest (Some ''first''))\<rparr>) = Some ''first''
   \<and> methodMatch (trim ''GET /a'') = Some (''GET'', ''/a'')
   \<and> methodMatch (trim ''POST /b'') = Some (''POST'', ''/b'')
   \<and> (\<exists>rs i. parseHurlLines [''# first'', ''GET /a'', ''HTTP 200'', ''POST /b'', ''HTTP 201''] = Inr rs
         \<and> Suc i < length rs
         \<and> comment (rs ! i) = Some ''first'' \<and> method' (rs ! i) = Some ''GET''
         \<and> url (rs ! i) = Some ''/a''
         \<and> comment (rs ! Suc i) = None \<and> method' (rs ! Suc i) = Some ''POST''
         \<and> url (rs ! Suc i) = Some ''/b'')"
proof -
  let ?p = "initial\<lparr>current := Some (newRequest (Some ''first''))\<rparr>"
  let ?q = "initial\<lparr>current := Some ((newRequest (Some ''first''))\<lparr>method' := Some ''GET'',
              url := Some ''/a'', statusCode := Some 200\<rparr>), state := RESPONSE\<rparr>"
  have pre: "parseLines initial [''# first''] = Inr ?p" by code_simp
  have sp: "state ?p \<noteq> BODY" by (simp add: initial_def)
  have tag: "openTag ?p = Some ''first''" by code_simp
  have m1: "methodMatch (trim ''GET /a'') = Some (''GET'', ''/a'')" by code_simp
  have m2: "methodMatch (trim ''POST /b'') = Some (''POST'', ''/b'')" by code_simp
  have mid: "list_all (\<lambda>l. \<not> startsWith ''#'' (trim l) \<and> methodMatch (trim l) = None) [''HTTP 200'']"
    by code_simp
  have q: "parseLines ?p [''GET /a'', ''HTTP 200''] = Inr ?q" by code_simp
  have sq: "state ?q \<noteq> BODY" by simp
  from back_to_back_requests [OF pre sp m1 mid q sq m2, of "[''HTTP 201'']"]
  have "\<exists>rs i. parseHurlLines ([''# first''] @ ''GET /a'' # [''HTTP 200''] @ ''POST /b'' # [''HTTP 201'']) = Inr rs
         \<and> Suc i < length rs
         \<and> comment (rs ! i) = openTag ?p \<and> method' (rs ! i) = Some ''GET''
         \<and> url (rs ! i) = Some ''/a''
         \<and> comment (rs ! Suc i) = None \<and> method' (rs ! Suc i) = Some ''POST''
         \<and> url (rs ! Suc i) = Some ''/b''" .
  then have ex: "\<exists>rs i. parseHurlLines [''# first'', ''GET /a'', ''HTTP 200'', ''POST /b'', ''HTTP 201''] = Inr rs
         \<and> Suc i < length rs
         \<and> comment (rs ! i) = Some ''first'' \<and> method' (rs ! i) = Some ''GET''
         \<and> url (rs ! i) = Some ''/a''
         \<and> comment (rs ! Suc i) = None \<and> method' (rs ! Suc i) = Some ''POST''
         \<and> url (rs ! Suc i) = Some ''/b''"
    by (simp only: tag append.simps)
  from pre sp tag m1 m2 ex show ?thesis by (intro conjI)
qed










subsection \<open>What generation writes\<close>

lemma atOrBelow_refl: "atOrBelow p p"
  by (simp add: atOrBelow_def)

lemma atOrBelow_append: "atOrBelow p (p @ xs)"
  by (simp add: atOrBelow_def)

lemma atOrBelow_iff: "atOrBelow p q \<longleftrightarrow> (\<exists>xs. q = p @ xs)"
  by (metis atOrBelow_def append_eq_conv_conj append_take_drop_id)

lemma atOrBelow_trans: "atOrBelow a b \<Longrightarrow> atOrBelow b c \<Longrightarrow> atOrBelow a c"
  by (auto simp: atOrBelow_iff)

lemma atOrBelow_comparable: "atOrBelow a q \<Longrightarrow> atOrBelow b q \<Longrightarrow> atOrBelow a b \<or> atOrBelow b a"
  by (auto simp: atOrBelow_iff append_eq_append_conv2)

lemma atOrBelow_snoc: "atOrBelow p (d @ [f]) \<Longrightarrow> p = d @ [f] \<or> atOrBelow p d"
  by (auto simp: atOrBelow_iff append_eq_append_conv2 Cons_eq_append_conv)

lemma changedWithin_refl: "changedWithin out fs fs"
  by (auto simp: changedWithin_def)

lemma changedWithin_trans:
  assumes "changedWithin out a b" and "changedWithin out b c"
  shows "changedWithin out a c"
  unfolding changedWithin_def
proof
  fix q
  from assms(1) have 1: "(fmlookup a q = Some Dir \<and> fmlookup b q = Some Dir)
        \<or> (fmlookup a q \<noteq> Some Dir
            \<and> (fmlookup b q = fmlookup a q
                \<or> atOrBelow out q
                \<or> (q \<noteq> [] \<and> atOrBelow q out \<and> fmlookup a q = None \<and> fmlookup b q = Some Dir)
                \<or> (\<exists>f c. q = butlast out @ [f] \<and> endsWith ''.bru'' f
                       \<and> fmlookup b q = Some (File c))))"
    unfolding changedWithin_def by blast
  from assms(2) have 2: "(fmlookup b q = Some Dir \<and> fmlookup c q = Some Dir)
        \<or> (fmlookup b q \<noteq> Some Dir
            \<and> (fmlookup c q = fmlookup b q
                \<or> atOrBelow out q
                \<or> (q \<noteq> [] \<and> atOrBelow q out \<and> fmlookup b q = None \<and> fmlookup c q = Some Dir)
                \<or> (\<exists>f c'. q = butlast out @ [f] \<and> endsWith ''.bru'' f
                       \<and> fmlookup c q = Some (File c'))))"
    unfolding changedWithin_def by blast
  from 1 2 show "(fmlookup a q = Some Dir \<and> fmlookup c q = Some Dir)
        \<or> (fmlookup a q \<noteq> Some Dir
            \<and> (fmlookup c q = fmlookup a q
                \<or> atOrBelow out q
                \<or> (q \<noteq> [] \<and> atOrBelow q out \<and> fmlookup a q = None \<and> fmlookup c q = Some Dir)
                \<or> (\<exists>f c'. q = butlast out @ [f] \<and> endsWith ''.bru'' f
                       \<and> fmlookup c q = Some (File c'))))"
    by (elim disjE conjE exE) auto
qed

text \<open>\<open>mkdirs\<close>: on success every directory on the way exists, and only missing ones
  were created.\<close>

lemma mkdirs_Inr:
  assumes "mkdirs d cs fs = Inr fs'"
  shows "(\<forall>k. 0 < k \<and> k \<le> length cs \<longrightarrow> fmlookup fs' (d @ take k cs) = Some Dir
            \<and> (fmlookup fs (d @ take k cs) = None \<or> fmlookup fs (d @ take k cs) = Some Dir))
       \<and> (\<forall>q. (\<forall>k. 0 < k \<and> k \<le> length cs \<longrightarrow> q \<noteq> d @ take k cs) \<longrightarrow> fmlookup fs' q = fmlookup fs q)"
  using assms
proof (induction cs arbitrary: d fs)
  case Nil
  then show ?case by simp
next
  case (Cons c cs)
  let ?fs1 = "(case fmlookup fs (d @ [c]) of None \<Rightarrow> fmupd (d @ [c]) Dir fs | Some _ \<Rightarrow> fs)"
  from Cons.prems have nf: "fmlookup fs (d @ [c]) = None \<or> fmlookup fs (d @ [c]) = Some Dir"
    by (auto split: option.splits node.splits)
  with Cons.prems have rec: "mkdirs (d @ [c]) cs ?fs1 = Inr fs'"
    by (auto split: option.splits node.splits)
  have l1: "fmlookup ?fs1 (d @ [c]) = Some Dir" using nf by auto
  have l2: "q \<noteq> d @ [c] \<Longrightarrow> fmlookup ?fs1 q = fmlookup fs q" for q
    by (auto split: option.splits)
  note IH = Cons.IH [OF rec]
  have longer: "(d @ [c]) @ take k cs \<noteq> d @ [c]" if "0 < k" "k \<le> length cs" for k
    using that by (cases cs) auto
  have part1: "fmlookup fs' (d @ take k (c # cs)) = Some Dir
            \<and> (fmlookup fs (d @ take k (c # cs)) = None \<or> fmlookup fs (d @ take k (c # cs)) = Some Dir)"
    if k: "0 < k \<and> k \<le> length (c # cs)" for k
  proof (cases k)
    case 0
    with k show ?thesis by simp
  next
    case (Suc j)
    show ?thesis
    proof (cases "j = 0")
      case True
      have "\<forall>k. 0 < k \<and> k \<le> length cs \<longrightarrow> d @ [c] \<noteq> (d @ [c]) @ take k cs"
        using longer by metis
      with IH have "fmlookup fs' (d @ [c]) = fmlookup ?fs1 (d @ [c])" by blast
      with l1 nf Suc True show ?thesis by simp
    next
      case False
      with k Suc have j: "0 < j \<and> j \<le> length cs" by simp
      with IH have a: "fmlookup fs' ((d @ [c]) @ take j cs) = Some Dir"
        and b: "fmlookup ?fs1 ((d @ [c]) @ take j cs) = None \<or> fmlookup ?fs1 ((d @ [c]) @ take j cs) = Some Dir"
        by blast+
      from longer j have "(d @ [c]) @ take j cs \<noteq> d @ [c]" by blast
      with b l2 have "fmlookup fs ((d @ [c]) @ take j cs) = None \<or> fmlookup fs ((d @ [c]) @ take j cs) = Some Dir"
        by simp
      with a Suc show ?thesis by simp
    qed
  qed
  have part2: "fmlookup fs' q = fmlookup fs q"
    if q: "\<forall>k. 0 < k \<and> k \<le> length (c # cs) \<longrightarrow> q \<noteq> d @ take k (c # cs)" for q
  proof -
    from q [rule_format, of 1] have ne: "q \<noteq> d @ [c]" by simp
    have "\<forall>k. 0 < k \<and> k \<le> length cs \<longrightarrow> q \<noteq> (d @ [c]) @ take k cs"
    proof (intro allI impI)
      fix k assume "0 < k \<and> k \<le> length cs"
      with q [rule_format, of "Suc k"] show "q \<noteq> (d @ [c]) @ take k cs" by simp
    qed
    with IH have "fmlookup fs' q = fmlookup ?fs1 q" by blast
    with l2 [OF ne] show "fmlookup fs' q = fmlookup fs q" by simp
  qed
  from part1 part2 show ?case by blast
qed

lemma mkdirSync_changed:
  assumes "mkdirSync p fs = Inr fs'"
  shows "\<forall>q. fmlookup fs' q = fmlookup fs q
           \<or> (q \<noteq> [] \<and> atOrBelow q p \<and> fmlookup fs q = None \<and> fmlookup fs' q = Some Dir)"
proof
  fix q
  note m = mkdirs_Inr [OF assms [unfolded mkdirSync_def]]
  show "fmlookup fs' q = fmlookup fs q
           \<or> (q \<noteq> [] \<and> atOrBelow q p \<and> fmlookup fs q = None \<and> fmlookup fs' q = Some Dir)"
  proof (cases "\<exists>k. 0 < k \<and> k \<le> length p \<and> q = take k p")
    case True
    then obtain k where k: "0 < k" "k \<le> length p" "q = take k p" by blast
    with m have "fmlookup fs' q = Some Dir" "fmlookup fs q = None \<or> fmlookup fs q = Some Dir"
      by auto
    moreover from k have "q \<noteq> []" "atOrBelow q p" by (auto simp: atOrBelow_def min_def)
    ultimately show ?thesis by auto
  next
    case False
    with m show ?thesis by auto
  qed
qed

lemma frames_steps:
  assumes "list_all (frames out) ss"
  shows "frames out (steps ss)"
  unfolding frames_def
proof
  fix fs
  from assms show "changedWithin out fs (fst (steps ss fs))"
  proof (induction ss arbitrary: fs)
    case Nil
    then show ?case by (simp add: changedWithin_refl)
  next
    case (Cons s ss)
    from Cons.prems have rest: "list_all (frames out) ss" by simp
    from Cons.prems have s: "changedWithin out fs (fst (s fs))" by (simp add: frames_def)
    show ?case
    proof (cases "s fs")
      case (Pair fs1 r)
      show ?thesis
      proof (cases r)
        case None
        from Cons.IH [OF rest, of fs1] s Pair None show ?thesis
          by (auto intro: changedWithin_trans)
      next
        case (Some e)
        with s Pair show ?thesis by simp
      qed
    qed
  qed
qed

lemma frames_mkdir:
  assumes "\<forall>q. q \<noteq> [] \<and> atOrBelow q p \<longrightarrow> atOrBelow q out \<or> atOrBelow out q"
  shows "frames out (atomic (mkdirSync p))"
  unfolding frames_def
proof
  fix fs
  show "changedWithin out fs (fst (atomic (mkdirSync p) fs))"
  proof (cases "mkdirSync p fs")
    case (Inl e)
    then show ?thesis by (simp add: atomic_def changedWithin_refl)
  next
    case (Inr fs')
    from mkdirSync_changed [OF Inr] assms have "changedWithin out fs fs'"
      unfolding changedWithin_def by (metis option.distinct(1))
    with Inr show ?thesis by (simp add: atomic_def)
  qed
qed

lemma frames_write:
  assumes "atOrBelow out p \<or> (\<exists>f. p = butlast out @ [f] \<and> endsWith ''.bru'' f)"
  shows "frames out (atomic (writeFileSync p c))"
  unfolding frames_def
proof
  fix fs
  show "changedWithin out fs (fst (atomic (writeFileSync p c) fs))"
  proof (cases "writeFileSync p c fs")
    case (Inl e)
    then show ?thesis by (simp add: atomic_def changedWithin_refl)
  next
    case (Inr fs')
    then have fs': "fs' = fmupd p (File c) fs" and nd: "fmlookup fs p \<noteq> Some Dir"
      by (auto simp: writeFileSync_def split: if_splits)
    have "changedWithin out fs fs'"
      unfolding changedWithin_def
    proof
      fix q
      show "(fmlookup fs q = Some Dir \<and> fmlookup fs' q = Some Dir)
        \<or> (fmlookup fs q \<noteq> Some Dir
            \<and> (fmlookup fs' q = fmlookup fs q
                \<or> atOrBelow out q
                \<or> (q \<noteq> [] \<and> atOrBelow q out \<and> fmlookup fs q = None \<and> fmlookup fs' q = Some Dir)
                \<or> (\<exists>f c. q = butlast out @ [f] \<and> endsWith ''.bru'' f
                       \<and> fmlookup fs' q = Some (File c))))"
      proof (cases "q = p")
        case True
        with assms nd fs' show ?thesis by auto
      next
        case False
        with fs' show ?thesis by auto
      qed
    qed
    with Inr show ?thesis by (simp add: atomic_def)
  qed
qed

lemma slash_facts:
  "\<not> isSlugChar (CHR ''/'')" "\<not> isDigit (CHR ''/'')" "CHR ''/'' \<notin> set ''0123456789''"
  by code_simp+

lemma showNat_digits: "set (showNat n) \<subseteq> set ''0123456789''"
proof (induction n rule: showNat.induct)
  case (1 n)
  have d: "''0123456789'' ! k \<in> set ''0123456789''" if "k < 10" for k
    using that by (intro nth_mem) simp
  show ?case
  proof (cases "n < 10")
    case True
    with d [of n] show ?thesis by (subst showNat.simps) simp
  next
    case False
    with 1 d [of "n mod 10"] show ?thesis by (subst showNat.simps) simp
  qed
qed

lemma collapseRuns_chars: "c \<in> set (collapseRuns s) \<Longrightarrow> isSlugChar c \<or> c = CHR ''-''"
  by (induction s rule: collapseRuns.induct) (auto split: if_splits)

lemma slugify_chars: "c \<in> set (slugify s) \<Longrightarrow> isSlugChar c \<or> c = CHR ''-''"
proof -
  assume "c \<in> set (slugify s)"
  then have "c \<in> set (collapseRuns (toLowerCase s))"
    by (auto simp: slugify_def stripHyphens_def Let_def split: if_splits
             dest: in_set_dropD in_set_butlastD)
  then show ?thesis by (rule collapseRuns_chars)
qed

lemma slugify_no_slash: "CHR ''/'' \<notin> set (slugify s)"
  using slugify_chars [of "CHR ''/''" s] slash_facts by auto

lemma padStart2_no_slash: "CHR ''/'' \<notin> set (padStart2 (showNat n))"
  using showNat_digits [of n] slash_facts(3) by (auto simp: padStart2_def)

lemma endsWith_append: "endsWith suf (xs @ suf)"
  by (simp add: endsWith_def)

lemma fileName_valid:
  assumes "fileName r i m u = Inr n"
  shows "validName n \<and> endsWith ''.bru'' n"
proof -
  from assms obtain x where n: "n = padStart2 (showNat (i + 1)) @ ''-'' @ slugify x @ ''.bru''"
    by (auto simp: fileName_def Let_def split: if_splits option.splits)
  have "CHR ''/'' \<notin> set n"
    using padStart2_no_slash [of "i + 1"] slugify_no_slash [of x] by (simp add: n)
  moreover have "endsWith ''.bru'' n"
    unfolding n using endsWith_append [of "''.bru''" "padStart2 (showNat (i + 1)) @ ''-'' @ slugify x"]
    by simp
  moreover have "length n \<ge> 5" by (simp add: n)
  then have "n \<noteq> [] \<and> n \<noteq> ''.'' \<and> n \<noteq> ''..''" by auto
  ultimately show ?thesis by (simp add: validName_def)
qed

lemma pjoin_no_slash: "CHR ''/'' \<notin> set n \<Longrightarrow> pjoin d n = joinStep d n"
  by (simp add: pjoin_def split_no_separator)

lemma folderName_no_slash: "CHR ''/'' \<notin> set f \<Longrightarrow> CHR ''/'' \<notin> set (folderName f)"
  by (auto simp: folderName_def basenameHurl_def dest: in_set_takeD)

lemma folderPath_cases:
  assumes "CHR ''/'' \<notin> set f"
  shows "pjoin out (folderName f) = out \<or> pjoin out (folderName f) = butlast out
       \<or> pjoin out (folderName f) = out @ [folderName f]"
  using pjoin_no_slash [OF folderName_no_slash [OF assms], of out]
  by (auto simp: joinStep_def)

lemma atOrBelow_butlast: "atOrBelow q (butlast p) \<Longrightarrow> atOrBelow q p"
  by (metis atOrBelow_iff append_butlast_last_id append.assoc butlast.simps(1))

lemma folder_prefixes:
  assumes "p = out \<or> p = butlast out \<or> p = out @ [x]"
  shows "\<forall>q. q \<noteq> [] \<and> atOrBelow q p \<longrightarrow> atOrBelow q out \<or> atOrBelow out q"
proof (intro allI impI)
  fix q assume q: "q \<noteq> [] \<and> atOrBelow q p"
  from assms show "atOrBelow q out \<or> atOrBelow out q"
  proof (elim disjE)
    assume "p = out" with q show ?thesis by simp
  next
    assume "p = butlast out" with q show ?thesis by (simp add: atOrBelow_butlast)
  next
    assume "p = out @ [x]"
    with q atOrBelow_snoc [of q out x] show ?thesis by (auto simp: atOrBelow_append)
  qed
qed

lemma frames_writeRequest:
  assumes "p = out \<or> p = butlast out \<or> p = out @ [x]"
  shows "frames out (writeRequest p ir)"
  unfolding frames_def
proof
  fix fs
  show "changedWithin out fs (fst (writeRequest p ir fs))"
  proof (cases "fileName (snd ir) (fst ir) (method' (snd ir)) (url (snd ir))")
    case (Inl e)
    then show ?thesis by (simp add: writeRequest_def changedWithin_refl)
  next
    case n: (Inr n)
    from fileName_valid [OF n] have v: "validName n" and b: "endsWith ''.bru'' n" by simp_all
    show ?thesis
    proof (cases "generateBruFile (snd ir) (fst ir + 1)")
      case (Inl e)
      with n show ?thesis by (simp add: writeRequest_def changedWithin_refl)
    next
      case (Inr content)
      from assms b have "atOrBelow out (p @ [n]) \<or> (\<exists>f. p @ [n] = butlast out @ [f] \<and> endsWith ''.bru'' f)"
        by (auto simp: atOrBelow_iff)
      from frames_write [OF this, of content] n Inr show ?thesis
        by (simp add: writeRequest_def frames_def pjoin_validName [OF v])
    qed
  qed
qed

lemma frames_writeRequests:
  assumes "p = out \<or> p = butlast out \<or> p = out @ [x]"
  shows "frames out (writeRequests p reqs)"
  unfolding writeRequests_def
  by (rule frames_steps) (simp add: list_all_iff frames_writeRequest [OF assms])

lemma frames_processHurlFile:
  assumes "CHR ''/'' \<notin> set f"
  shows "frames out (processHurlFile e out f)"
  unfolding frames_def
proof
  fix fs
  from folderPath_cases [OF assms, of out]
  have c: "pjoin out (folderName f) = out \<or> pjoin out (folderName f) = butlast out
       \<or> pjoin out (folderName f) = out @ [folderName f]" .
  show "changedWithin out fs (fst (processHurlFile e out f fs))"
  proof (cases "parseHurlFile fs (pjoin (HURL_DIR e) f)")
    case (Inl err)
    then show ?thesis by (simp add: processHurlFile_def changedWithin_refl)
  next
    case (Inr reqs)
    have "frames out (steps [atomic (mkdirSync (pjoin out (folderName f))),
                 writeRequests (pjoin out (folderName f)) reqs])"
      by (rule frames_steps)
         (simp add: frames_mkdir [OF folder_prefixes [OF c]] frames_writeRequests [OF c])
    with Inr show ?thesis by (simp add: processHurlFile_def frames_def)
  qed
qed

lemma frames_processHurlFiles: "frames out (processHurlFiles e out)"
  unfolding frames_def
proof
  fix fs
  show "changedWithin out fs (fst (processHurlFiles e out fs))"
  proof (cases "readdirSync fs (HURL_DIR e)")
    case (Inl err)
    then show ?thesis by (simp add: processHurlFiles_def changedWithin_refl)
  next
    case (Inr names)
    have "list_all (frames out) (map (processHurlFile e out) (sort (filter (endsWith ''.hurl'') names)))"
    proof -
      have "frames out (processHurlFile e out f)" if "f \<in> set names" for f
      proof -
        from readdirSync_entry [OF Inr that] have "CHR ''/'' \<notin> set f"
          by (simp add: validName_def)
        then show ?thesis by (rule frames_processHurlFile)
      qed
      then show ?thesis by (simp add: list_all_iff)
    qed
    from frames_steps [OF this] Inr show ?thesis
      by (simp add: processHurlFiles_def frames_def)
  qed
qed

lemma valid_names: "validName ''bruno.json''" "validName ''collection.bru''"
  "validName ''environments''" "validName ''local.bru''" "validName ''hurl''" "validName ''bruno''"
  by code_simp+

lemma generateCollection_stmts:
  "list_all (frames out)
     [atomic (mkdirSync out),
      atomic (writeFileSync (pjoin out ''bruno.json'') brunoJson),
      atomic (writeFileSync (pjoin out ''collection.bru'') collectionBru),
      atomic (mkdirSync (pjoin out ''environments'')),
      atomic (writeFileSync (pjoin (pjoin out ''environments'') ''local.bru'') localBru),
      processHurlFiles e out]"
proof -
  have p0: "\<forall>q. q \<noteq> [] \<and> atOrBelow q out \<longrightarrow> atOrBelow q out \<or> atOrBelow out q"
    by simp
  have p1: "\<forall>q. q \<noteq> [] \<and> atOrBelow q (out @ [''environments'']) \<longrightarrow> atOrBelow q out \<or> atOrBelow out q"
    by (rule folder_prefixes [of _ _ "''environments''"]) simp
  show ?thesis
    by (simp add: pjoin_validName valid_names frames_mkdir [OF p0] frames_mkdir [OF p1]
          frames_write atOrBelow_iff frames_processHurlFiles)
qed

lemma frames_generateCollection: "frames out (generateCollection e out)"
  unfolding generateCollection_def by (rule frames_steps [OF generateCollection_stmts])

subsection \<open>Check mode\<close>

lemma showNat_no_slash: "CHR ''/'' \<notin> set (showNat n)"
  using showNat_digits [of n] slash_facts(3) by auto

lemma scratchDir_eq: "scratchDir e = tmpdir e @ [''bruno-check-'' @ showNat (now e)]"
proof -
  have "validName (''bruno-check-'' @ showNat (now e))"
    using showNat_no_slash [of "now e"] by (simp add: validName_def)
  then show ?thesis by (simp add: scratchDir_def pjoin_validName)
qed

lemma BRUNO_DIR_eq: "BRUNO_DIR e = ROOT e @ [''bruno'']"
  by (simp add: BRUNO_DIR_def pjoin_validName valid_names)

lemma HURL_DIR_eq: "HURL_DIR e = ROOT e @ [''hurl'']"
  by (simp add: HURL_DIR_def pjoin_validName valid_names)

lemma not_bru: "\<not> endsWith ''.bru'' ''bruno''" "\<not> endsWith ''.bru'' ''hurl''"
  by code_simp+

lemma fst_checkBody: "fst (checkBody e t fs) = fst (generateCollection e t fs)"
  by (auto simp: checkBody_def split: prod.splits option.splits sum.splits)

lemma lookup_rmSync: "fmlookup (rmSync p fs) q = (if atOrBelow p q then None else fmlookup fs q)"
  by (simp add: rmSync_def)

lemma fst_checkMode:
  "fst (checkMode e fs) = fst (generateCollection e (scratchDir e) fs)
   \<or> fst (checkMode e fs) = rmSync (scratchDir e) (fst (generateCollection e (scratchDir e) fs))"
proof -
  obtain fs1 r where c: "checkBody e (scratchDir e) fs = (fs1, r)" by (cases "checkBody e (scratchDir e) fs")
  with fst_checkBody [of e "scratchDir e" fs] have "fs1 = fst (generateCollection e (scratchDir e) fs)"
    by simp
  with c show ?thesis
    by (cases r) (simp_all add: checkMode_def Let_def)
qed

text \<open>
  C5 (check mode does not touch the committed tree): when the scratch directory and
  the committed target directory are apart (neither lies in the other), every path
  at or below the committed target directory holds after check mode what it held
  before, on every exit path.
\<close>

theorem checkMode_keeps_committed_tree:
  assumes a: "\<not> atOrBelow (BRUNO_DIR e) (scratchDir e)"
      and b: "\<not> atOrBelow (scratchDir e) (BRUNO_DIR e)"
  shows "\<forall>q. atOrBelow (BRUNO_DIR e) q \<longrightarrow> fmlookup (fst (checkMode e fs)) q = fmlookup fs q"
proof (intro allI impI)
  fix q assume q: "atOrBelow (BRUNO_DIR e) q"
  let ?t = "scratchDir e" and ?fs1 = "fst (generateCollection e (scratchDir e) fs)"
  have nt: "\<not> atOrBelow ?t q"
    using atOrBelow_comparable [OF q, of ?t] a b by blast
  have np: "\<not> atOrBelow q ?t"
    using atOrBelow_trans [OF q, of ?t] a by blast
  have nq: "q \<noteq> butlast ?t @ [f]" if f: "endsWith ''.bru'' f" for f
  proof
    assume eq: "q = butlast ?t @ [f]"
    have bt: "butlast ?t = tmpdir e" by (simp add: scratchDir_eq)
    from q eq bt have "atOrBelow (BRUNO_DIR e) (tmpdir e @ [f])" by simp
    from atOrBelow_snoc [OF this] show False
    proof
      assume "BRUNO_DIR e = tmpdir e @ [f]"
      then have "f = ''bruno''" by (simp add: BRUNO_DIR_eq)
      with f not_bru show False by simp
    next
      assume "atOrBelow (BRUNO_DIR e) (tmpdir e)"
      then have "atOrBelow (BRUNO_DIR e) ?t"
        by (rule atOrBelow_trans) (simp add: scratchDir_eq atOrBelow_append)
      with a show False by simp
    qed
  qed
  from frames_generateCollection [of ?t e] have "changedWithin ?t fs ?fs1"
    by (simp add: frames_def)
  then have "(fmlookup fs q = Some Dir \<and> fmlookup ?fs1 q = Some Dir)
        \<or> (fmlookup fs q \<noteq> Some Dir
            \<and> (fmlookup ?fs1 q = fmlookup fs q
                \<or> atOrBelow ?t q
                \<or> (q \<noteq> [] \<and> atOrBelow q ?t \<and> fmlookup fs q = None \<and> fmlookup ?fs1 q = Some Dir)
                \<or> (\<exists>f c. q = butlast ?t @ [f] \<and> endsWith ''.bru'' f
                       \<and> fmlookup ?fs1 q = Some (File c))))"
    unfolding changedWithin_def by blast
  with nt np nq have same: "fmlookup ?fs1 q = fmlookup fs q" by auto
  from fst_checkMode [of e fs] show "fmlookup (fst (checkMode e fs)) q = fmlookup fs q"
  proof
    assume "fst (checkMode e fs) = ?fs1"
    with same show ?thesis by simp
  next
    assume "fst (checkMode e fs) = rmSync ?t ?fs1"
    with same nt show ?thesis by (simp add: lookup_rmSync)
  qed
qed

theorem checkMode_keeps_committed_tree_witness:
  "\<not> atOrBelow (BRUNO_DIR \<lparr>ROOT = [''repo''], tmpdir = [''tmp''], now = 7\<rparr>)
                (scratchDir \<lparr>ROOT = [''repo''], tmpdir = [''tmp''], now = 7\<rparr>)
   \<and> \<not> atOrBelow (scratchDir \<lparr>ROOT = [''repo''], tmpdir = [''tmp''], now = 7\<rparr>)
                  (BRUNO_DIR \<lparr>ROOT = [''repo''], tmpdir = [''tmp''], now = 7\<rparr>)
   \<and> atOrBelow (BRUNO_DIR \<lparr>ROOT = [''repo''], tmpdir = [''tmp''], now = 7\<rparr>) [''repo'', ''bruno'', ''old.bru'']
   \<and> fmlookup (fst (checkMode \<lparr>ROOT = [''repo''], tmpdir = [''tmp''], now = 7\<rparr>
        (fmap_of_list [([''repo''], Dir), ([''repo'', ''hurl''], Dir), ([''tmp''], Dir),
           ([''repo'', ''bruno''], Dir), ([''repo'', ''bruno'', ''old.bru''], File ''stale'')])))
        [''repo'', ''bruno'', ''old.bru'']
      = Some (File ''stale'')"
proof -
  let ?e = "\<lparr>ROOT = [''repo''], tmpdir = [''tmp''], now = 7\<rparr>"
  let ?fs = "fmap_of_list [([''repo''], Dir), ([''repo'', ''hurl''], Dir), ([''tmp''], Dir),
           ([''repo'', ''bruno''], Dir), ([''repo'', ''bruno'', ''old.bru''], File ''stale'')]"
  have a: "\<not> atOrBelow (BRUNO_DIR ?e) (scratchDir ?e)" by code_simp
  have b: "\<not> atOrBelow (scratchDir ?e) (BRUNO_DIR ?e)" by code_simp
  have q: "atOrBelow (BRUNO_DIR ?e) [''repo'', ''bruno'', ''old.bru'']" by code_simp
  have l: "fmlookup ?fs [''repo'', ''bruno'', ''old.bru''] = Some (File ''stale'')" by code_simp
  from checkMode_keeps_committed_tree [OF a b, of ?fs, rule_format, OF q] l
  have "fmlookup (fst (checkMode ?e ?fs)) [''repo'', ''bruno'', ''old.bru''] = Some (File ''stale'')"
    by (simp only:)
  with a b q show ?thesis by (intro conjI)
qed

text \<open>
  C3 (the scratch directory is removed on every exit path of check mode): with no
  committed tree the check finds the three scaffolding files missing and ends the
  process with status 1 through \<open>process.exit\<close> inside the \<open>try\<close> block, and the
  scratch directory with its files is still there; when the committed tree is the
  generated one, the check returns and the scratch directory is gone.
\<close>

theorem checkMode_exit_keeps_scratch:
  "snd (checkMode \<lparr>ROOT = [''repo''], tmpdir = [''tmp''], now = 7\<rparr>
         (fmap_of_list [([''repo''], Dir), ([''repo'', ''hurl''], Dir), ([''tmp''], Dir)]))
     = Exited 1
   \<and> fmlookup (fst (checkMode \<lparr>ROOT = [''repo''], tmpdir = [''tmp''], now = 7\<rparr>
         (fmap_of_list [([''repo''], Dir), ([''repo'', ''hurl''], Dir), ([''tmp''], Dir)])))
        [''tmp'', ''bruno-check-7''] = Some Dir
   \<and> fmlookup (fst (checkMode \<lparr>ROOT = [''repo''], tmpdir = [''tmp''], now = 7\<rparr>
         (fmap_of_list [([''repo''], Dir), ([''repo'', ''hurl''], Dir), ([''tmp''], Dir)])))
        [''tmp'', ''bruno-check-7'', ''bruno.json''] = Some (File brunoJson)
   \<and> snd (checkMode \<lparr>ROOT = [''repo''], tmpdir = [''tmp''], now = 7\<rparr>
         (fst (generateMode \<lparr>ROOT = [''repo''], tmpdir = [''tmp''], now = 7\<rparr>
            (fmap_of_list [([''repo''], Dir), ([''repo'', ''hurl''], Dir), ([''tmp''], Dir)]))))
     = Returned
   \<and> fmlookup (fst (checkMode \<lparr>ROOT = [''repo''], tmpdir = [''tmp''], now = 7\<rparr>
         (fst (generateMode \<lparr>ROOT = [''repo''], tmpdir = [''tmp''], now = 7\<rparr>
            (fmap_of_list [([''repo''], Dir), ([''repo'', ''hurl''], Dir), ([''tmp''], Dir)])))))
        [''tmp'', ''bruno-check-7''] = None"
  by code_simp

subsection \<open>Regeneration\<close>

lemma wellFormed_lookup: "wellFormed fs \<Longrightarrow> fmlookup fs q \<noteq> None \<Longrightarrow> isDir fs (butlast q)"
  by (auto simp: wellFormed_def fmlookup_dom_iff)

lemma agreeBut_refl: "agreeBut root fs fs"
  by (simp add: agreeBut_def)

lemma agreeBut_same:
  assumes "agreeBut root fs fs'" and "\<not> (\<exists>f. q = root @ [f] \<and> endsWith ''.bru'' f)"
  shows "fmlookup fs' q = fmlookup fs q"
  using assms unfolding agreeBut_def by blast

lemma agreeBut_not_Dir:
  assumes "agreeBut root fs fs'"
  shows "fmlookup fs' q = Some Dir \<longleftrightarrow> fmlookup fs q = Some Dir"
  using assms unfolding agreeBut_def by (metis node.distinct(1) option.inject)

lemma simulates_steps:
  assumes "list_all (simulates root) ss"
  shows "simulates root (steps ss)"
  unfolding simulates_def
proof (intro allI impI)
  fix fs fs' assume "agreeBut root fs fs'"
  with assms show "snd (steps ss fs) = snd (steps ss fs')
      \<and> agreeBut root (fst (steps ss fs)) (fst (steps ss fs'))"
  proof (induction ss arbitrary: fs fs')
    case Nil
    then show ?case by simp
  next
    case (Cons s ss)
    from Cons.prems(1) have rest: "list_all (simulates root) ss" by simp
    from Cons.prems have s: "snd (s fs) = snd (s fs') \<and> agreeBut root (fst (s fs)) (fst (s fs'))"
      by (simp add: simulates_def)
    obtain a r where 1: "s fs = (a, r)" by (cases "s fs")
    obtain a' r' where 2: "s fs' = (a', r')" by (cases "s fs'")
    from s 1 2 have rr: "r' = r" and ag: "agreeBut root a a'" by simp_all
    show ?case
    proof (cases r)
      case None
      with Cons.IH [OF rest ag] 1 2 rr show ?thesis by simp
    next
      case (Some e)
      with 1 2 rr ag show ?thesis by simp
    qed
  qed
qed

text \<open>\<open>mkdirs\<close> fails or succeeds alike on file systems that agree on the way.\<close>

lemma mkdirs_cong:
  assumes "\<forall>k. 0 < k \<and> k \<le> length cs \<longrightarrow> fmlookup fs (d @ take k cs) = fmlookup fs' (d @ take k cs)"
  shows "map_sum id (\<lambda>_. ()) (mkdirs d cs fs) = map_sum id (\<lambda>_. ()) (mkdirs d cs fs')"
  using assms
proof (induction cs arbitrary: d fs fs')
  case Nil
  then show ?case by simp
next
  case (Cons c cs)
  from Cons.prems [rule_format, of 1] have same: "fmlookup fs (d @ [c]) = fmlookup fs' (d @ [c])"
    by simp
  have deeper: "fmlookup fs ((d @ [c]) @ take k cs) = fmlookup fs' ((d @ [c]) @ take k cs)"
    if "0 < k \<and> k \<le> length cs" for k
    using Cons.prems [rule_format, of "Suc k"] that by simp
  have ne: "(d @ [c]) @ take k cs \<noteq> d @ [c]" if "0 < k \<and> k \<le> length cs" for k
    using that by (cases cs) auto
  show ?case
  proof (cases "fmlookup fs (d @ [c])")
    case None
    have "\<forall>k. 0 < k \<and> k \<le> length cs \<longrightarrow>
        fmlookup (fmupd (d @ [c]) Dir fs) ((d @ [c]) @ take k cs)
          = fmlookup (fmupd (d @ [c]) Dir fs') ((d @ [c]) @ take k cs)"
      using deeper ne by simp
    from Cons.IH [OF this] None same show ?thesis by simp
  next
    case (Some n)
    show ?thesis
    proof (cases n)
      case (File x)
      with Some same show ?thesis by simp
    next
      case Dir
      have "\<forall>k. 0 < k \<and> k \<le> length cs \<longrightarrow>
          fmlookup fs ((d @ [c]) @ take k cs) = fmlookup fs' ((d @ [c]) @ take k cs)"
        using deeper by simp
      from Cons.IH [OF this] Some Dir same show ?thesis by simp
    qed
  qed
qed

lemma simulates_mkdir:
  assumes np: "\<forall>q. q \<noteq> [] \<and> atOrBelow q p \<longrightarrow> \<not> (\<exists>f. q = root @ [f] \<and> endsWith ''.bru'' f)"
  shows "simulates root (atomic (mkdirSync p))"
  unfolding simulates_def
proof (intro allI impI)
  fix fs fs' assume ag: "agreeBut root fs fs'"
  have pre: "take k p \<noteq> [] \<and> atOrBelow (take k p) p" if "0 < k \<and> k \<le> length p" for k
    using that by (auto simp: atOrBelow_def min_def)
  have "\<forall>k. 0 < k \<and> k \<le> length p \<longrightarrow> fmlookup fs ([] @ take k p) = fmlookup fs' ([] @ take k p)"
  proof (intro allI impI)
    fix k assume "0 < k \<and> k \<le> length p"
    from pre [OF this] np have "\<not> (\<exists>f. take k p = root @ [f] \<and> endsWith ''.bru'' f)" by blast
    from agreeBut_same [OF ag this] show "fmlookup fs ([] @ take k p) = fmlookup fs' ([] @ take k p)"
      by simp
  qed
  from mkdirs_cong [OF this]
  have c: "map_sum id (\<lambda>_. ()) (mkdirSync p fs) = map_sum id (\<lambda>_. ()) (mkdirSync p fs')"
    by (simp add: mkdirSync_def)
  show "snd (atomic (mkdirSync p) fs) = snd (atomic (mkdirSync p) fs')
      \<and> agreeBut root (fst (atomic (mkdirSync p) fs)) (fst (atomic (mkdirSync p) fs'))"
  proof (cases "mkdirSync p fs")
    case (Inl e)
    with c have "mkdirSync p fs' = Inl e" by (cases "mkdirSync p fs'") simp_all
    with Inl ag show ?thesis by (simp add: atomic_def)
  next
    case (Inr a)
    with c obtain a' where a': "mkdirSync p fs' = Inr a'" by (cases "mkdirSync p fs'") simp_all
    note m = mkdirs_Inr [OF Inr [unfolded mkdirSync_def]]
    note m' = mkdirs_Inr [OF a' [unfolded mkdirSync_def]]
    have "agreeBut root a a'"
      unfolding agreeBut_def
    proof
      fix q
      show "fmlookup a' q = fmlookup a q
        \<or> (\<exists>f c. q = root @ [f] \<and> endsWith ''.bru'' f
               \<and> fmlookup a q \<noteq> Some Dir \<and> fmlookup a' q = Some (File c))"
      proof (cases "\<exists>k. 0 < k \<and> k \<le> length p \<and> q = take k p")
        case True
        with m m' show ?thesis by auto
      next
        case False
        with m m' have "fmlookup a q = fmlookup fs q" "fmlookup a' q = fmlookup fs' q" by auto
        with ag show ?thesis unfolding agreeBut_def by metis
      qed
    qed
    with Inr a' show ?thesis by (simp add: atomic_def)
  qed
qed

lemma simulates_write:
  assumes nb: "\<not> (\<exists>f. butlast p = root @ [f] \<and> endsWith ''.bru'' f)"
  shows "simulates root (atomic (writeFileSync p c))"
  unfolding simulates_def
proof (intro allI impI)
  fix fs fs' assume ag: "agreeBut root fs fs'"
  from agreeBut_same [OF ag nb] have par: "fmlookup fs' (butlast p) = fmlookup fs (butlast p)" .
  from agreeBut_not_Dir [OF ag] have dir: "fmlookup fs' p = Some Dir \<longleftrightarrow> fmlookup fs p = Some Dir" .
  show "snd (atomic (writeFileSync p c) fs) = snd (atomic (writeFileSync p c) fs')
      \<and> agreeBut root (fst (atomic (writeFileSync p c) fs)) (fst (atomic (writeFileSync p c) fs'))"
  proof (cases "writeFileSync p c fs")
    case (Inl e)
    with par dir have "writeFileSync p c fs' = Inl e"
      by (auto simp: writeFileSync_def existsSync_def isDir_def split: if_splits)
    with Inl ag show ?thesis by (simp add: atomic_def)
  next
    case (Inr a)
    then have a: "a = fmupd p (File c) fs"
      by (auto simp: writeFileSync_def split: if_splits)
    from Inr par dir have a': "writeFileSync p c fs' = Inr (fmupd p (File c) fs')"
      by (auto simp: writeFileSync_def existsSync_def isDir_def split: if_splits)
    have "agreeBut root (fmupd p (File c) fs) (fmupd p (File c) fs')"
      unfolding agreeBut_def
    proof
      fix q
      from ag have "fmlookup fs' q = fmlookup fs q
        \<or> (\<exists>f c. q = root @ [f] \<and> endsWith ''.bru'' f
               \<and> fmlookup fs q \<noteq> Some Dir \<and> fmlookup fs' q = Some (File c))"
        unfolding agreeBut_def by blast
      then show "fmlookup (fmupd p (File c) fs') q = fmlookup (fmupd p (File c) fs) q
        \<or> (\<exists>f ca. q = root @ [f] \<and> endsWith ''.bru'' f
               \<and> fmlookup (fmupd p (File c) fs) q \<noteq> Some Dir
               \<and> fmlookup (fmupd p (File c) fs') q = Some (File ca))"
        by (cases "q = p") auto
    qed
    with Inr a a' show ?thesis by (simp add: atomic_def)
  qed
qed

lemma readFileSync_cong:
  assumes "agreeBut root fs fs'" and "\<not> (\<exists>f. p = root @ [f] \<and> endsWith ''.bru'' f)"
  shows "readFileSync fs' p = readFileSync fs p"
  using agreeBut_same [OF assms] by (simp add: readFileSync_def)

lemma readdirSync_cong:
  assumes same: "fmlookup fs' d = fmlookup fs d"
      and kids: "\<forall>n. fmlookup fs' (d @ [n]) = fmlookup fs (d @ [n])"
  shows "readdirSync fs' d = readdirSync fs d"
proof -
  have "ffilter (\<lambda>q. q \<noteq> [] \<and> butlast q = d \<and> validName (last q)) (fmdom fs')
      = ffilter (\<lambda>q. q \<noteq> [] \<and> butlast q = d \<and> validName (last q)) (fmdom fs)"
  proof (rule fset_eqI)
    fix q
    show "q |\<in>| ffilter (\<lambda>q. q \<noteq> [] \<and> butlast q = d \<and> validName (last q)) (fmdom fs')
      \<longleftrightarrow> q |\<in>| ffilter (\<lambda>q. q \<noteq> [] \<and> butlast q = d \<and> validName (last q)) (fmdom fs)"
    proof (cases "q \<noteq> [] \<and> butlast q = d")
      case True
      then have "q = d @ [last q]" by (metis append_butlast_last_id)
      with kids have "fmlookup fs' q = fmlookup fs q" by metis
      then show ?thesis by (simp add: fmlookup_dom_iff)
    next
      case False
      then show ?thesis by auto
    qed
  qed
  then have "sorted_list_of_fset (last |`| ffilter (\<lambda>q. q \<noteq> [] \<and> butlast q = d \<and> validName (last q)) (fmdom fs'))
      = sorted_list_of_fset (last |`| ffilter (\<lambda>q. q \<noteq> [] \<and> butlast q = d \<and> validName (last q)) (fmdom fs))"
    by (rule arg_cong)
  moreover from same have "existsSync fs' d = existsSync fs d" "isDir fs' d = isDir fs d"
    by (simp_all add: existsSync_def isDir_def)
  ultimately show ?thesis unfolding readdirSync_def by (simp only:)
qed

lemma prefix_of_bruno:
  assumes "atOrBelow (root @ [f]) p" and "p = root @ [''bruno''] \<or> p = root \<or> p = root @ [''bruno'', x]"
  shows "f = ''bruno''"
  using assms by (auto simp: atOrBelow_iff)

lemma no_bru_prefix:
  assumes "p = root @ [''bruno''] \<or> p = root \<or> p = root @ [''bruno'', x]"
  shows "\<forall>q. q \<noteq> [] \<and> atOrBelow q p \<longrightarrow> \<not> (\<exists>f. q = root @ [f] \<and> endsWith ''.bru'' f)"
  using prefix_of_bruno [OF _ assms] not_bru(1) by blast

lemma no_bru_folder:
  assumes "p = root @ [''bruno''] \<or> p = root \<or> p = root @ [''bruno'', x]"
  shows "\<not> (\<exists>f. p = root @ [f] \<and> endsWith ''.bru'' f)"
  using assms not_bru(1) by auto

lemma simulates_writeRequest:
  assumes p: "p = root @ [''bruno''] \<or> p = root \<or> p = root @ [''bruno'', x]"
  shows "simulates root (writeRequest p ir)"
proof (cases "fileName (snd ir) (fst ir) (method' (snd ir)) (url (snd ir))")
  case (Inl e)
  then show ?thesis by (simp add: simulates_def writeRequest_def)
next
  case n: (Inr n)
  from fileName_valid [OF n] have v: "validName n" by simp
  show ?thesis
  proof (cases "generateBruFile (snd ir) (fst ir + 1)")
    case (Inl e)
    with n show ?thesis by (simp add: simulates_def writeRequest_def)
  next
    case (Inr content)
    from no_bru_folder [OF p] have "\<not> (\<exists>f. butlast (p @ [n]) = root @ [f] \<and> endsWith ''.bru'' f)"
      by simp
    from simulates_write [OF this, of content] n Inr show ?thesis
      by (simp add: simulates_def writeRequest_def pjoin_validName [OF v])
  qed
qed

lemma simulates_writeRequests:
  assumes "p = root @ [''bruno''] \<or> p = root \<or> p = root @ [''bruno'', x]"
  shows "simulates root (writeRequests p reqs)"
  unfolding writeRequests_def
  by (rule simulates_steps) (simp add: list_all_iff simulates_writeRequest [OF assms])

lemma parseHurlFile_cong:
  assumes "agreeBut root fs fs'" and "validName f"
  shows "parseHurlFile fs' (pjoin (root @ [''hurl'']) f) = parseHurlFile fs (pjoin (root @ [''hurl'']) f)"
proof -
  have "\<not> (\<exists>g. root @ [''hurl'', f] = root @ [g] \<and> endsWith ''.bru'' g)" by simp
  from readFileSync_cong [OF assms(1) this] assms(2) show ?thesis
    by (simp add: parseHurlFile_def pjoin_validName)
qed

lemma simulates_processHurlFile:
  assumes v: "validName f" and r: "ROOT e = root"
  shows "simulates root (processHurlFile e (root @ [''bruno'']) f)"
  unfolding simulates_def
proof (intro allI impI)
  fix fs fs' assume ag: "agreeBut root fs fs'"
  let ?out = "root @ [''bruno'']"
  from v have "CHR ''/'' \<notin> set f" by (simp add: validName_def)
  from folderPath_cases [OF this, of ?out]
  have c: "pjoin ?out (folderName f) = root @ [''bruno''] \<or> pjoin ?out (folderName f) = root
       \<or> pjoin ?out (folderName f) = root @ [''bruno'', folderName f]"
    by auto
  have h: "HURL_DIR e = root @ [''hurl'']" using r by (simp add: HURL_DIR_eq)
  from parseHurlFile_cong [OF ag v]
  have same: "parseHurlFile fs' (pjoin (HURL_DIR e) f) = parseHurlFile fs (pjoin (HURL_DIR e) f)"
    by (simp add: h)
  show "snd (processHurlFile e ?out f fs) = snd (processHurlFile e ?out f fs')
      \<and> agreeBut root (fst (processHurlFile e ?out f fs)) (fst (processHurlFile e ?out f fs'))"
  proof (cases "parseHurlFile fs (pjoin (HURL_DIR e) f)")
    case (Inl err)
    with same ag show ?thesis by (simp add: processHurlFile_def)
  next
    case (Inr reqs)
    have "simulates root (steps [atomic (mkdirSync (pjoin ?out (folderName f))),
                 writeRequests (pjoin ?out (folderName f)) reqs])"
      by (rule simulates_steps)
         (simp add: simulates_mkdir [OF no_bru_prefix [OF c]] simulates_writeRequests [OF c])
    with Inr same ag show ?thesis by (simp add: processHurlFile_def simulates_def)
  qed
qed

lemma simulates_processHurlFiles:
  assumes r: "ROOT e = root"
  shows "simulates root (processHurlFiles e (root @ [''bruno'']))"
  unfolding simulates_def
proof (intro allI impI)
  fix fs fs' assume ag: "agreeBut root fs fs'"
  let ?out = "root @ [''bruno'']"
  have h: "HURL_DIR e = root @ [''hurl'']" using r by (simp add: HURL_DIR_eq)
  have "\<not> (\<exists>g. root @ [''hurl''] = root @ [g] \<and> endsWith ''.bru'' g)"
    using not_bru(2) by simp
  from agreeBut_same [OF ag this] have d: "fmlookup fs' (root @ [''hurl'']) = fmlookup fs (root @ [''hurl''])" .
  have k: "\<forall>n. fmlookup fs' ((root @ [''hurl'']) @ [n]) = fmlookup fs ((root @ [''hurl'']) @ [n])"
  proof
    fix n
    have "\<not> (\<exists>g. (root @ [''hurl'']) @ [n] = root @ [g] \<and> endsWith ''.bru'' g)" by simp
    from agreeBut_same [OF ag this]
    show "fmlookup fs' ((root @ [''hurl'']) @ [n]) = fmlookup fs ((root @ [''hurl'']) @ [n])" .
  qed
  from readdirSync_cong [OF d k] have same: "readdirSync fs' (HURL_DIR e) = readdirSync fs (HURL_DIR e)"
    by (simp add: h)
  show "snd (processHurlFiles e ?out fs) = snd (processHurlFiles e ?out fs')
      \<and> agreeBut root (fst (processHurlFiles e ?out fs)) (fst (processHurlFiles e ?out fs'))"
  proof (cases "readdirSync fs (HURL_DIR e)")
    case (Inl err)
    with same ag show ?thesis by (simp add: processHurlFiles_def)
  next
    case (Inr names)
    have "list_all (simulates root)
        (map (processHurlFile e ?out) (sort (filter (endsWith ''.hurl'') names)))"
    proof -
      have "simulates root (processHurlFile e ?out f)" if "f \<in> set names" for f
        using readdirSync_entry [OF Inr that] r by (simp add: simulates_processHurlFile)
      then show ?thesis by (simp add: list_all_iff)
    qed
    from simulates_steps [OF this] Inr same ag show ?thesis
      by (simp add: processHurlFiles_def simulates_def)
  qed
qed

lemma simulates_generateCollection:
  assumes r: "ROOT e = root"
  shows "simulates root (generateCollection e (root @ [''bruno'']))"
  unfolding generateCollection_def
proof (rule simulates_steps)
  have p0: "\<forall>q. q \<noteq> [] \<and> atOrBelow q (root @ [''bruno'']) \<longrightarrow> \<not> (\<exists>f. q = root @ [f] \<and> endsWith ''.bru'' f)"
    by (rule no_bru_prefix [of _ _ "''x''"]) simp
  have p1: "\<forall>q. q \<noteq> [] \<and> atOrBelow q (root @ [''bruno'', ''environments'']) \<longrightarrow> \<not> (\<exists>f. q = root @ [f] \<and> endsWith ''.bru'' f)"
    by (rule no_bru_prefix [of _ _ "''environments''"]) simp
  have w0: "\<not> (\<exists>f. butlast (root @ [''bruno'', n]) = root @ [f] \<and> endsWith ''.bru'' f)" for n
    using not_bru(1) by (simp add: butlast_append)
  have w1: "\<not> (\<exists>f. butlast (root @ [''bruno'', ''environments'', n]) = root @ [f] \<and> endsWith ''.bru'' f)" for n
    by (simp add: butlast_append)
  show "list_all (simulates root)
     [atomic (mkdirSync (root @ [''bruno''])),
      atomic (writeFileSync (pjoin (root @ [''bruno'']) ''bruno.json'') brunoJson),
      atomic (writeFileSync (pjoin (root @ [''bruno'']) ''collection.bru'') collectionBru),
      atomic (mkdirSync (pjoin (root @ [''bruno'']) ''environments'')),
      atomic (writeFileSync (pjoin (pjoin (root @ [''bruno'']) ''environments'') ''local.bru'') localBru),
      processHurlFiles e (root @ [''bruno''])]"
    using simulates_mkdir [OF p0] simulates_mkdir [OF p1]
      simulates_write [OF w0] simulates_write [OF w1] simulates_processHurlFiles [OF r]
    by (simp add: pjoin_validName valid_names)
qed

lemma collectFiles_cong:
  assumes "\<forall>q. atOrBelow dir q \<longrightarrow> fmlookup fs' q = fmlookup fs q"
  shows "collectFiles fs' dir pre = collectFiles fs dir pre"
  using assms
proof (induction fs dir pre rule: collectFiles.induct)
  case (1 fs dir pre)
  let ?F = "\<lambda>fs result entry.
              (case result of
                 Inl e \<Rightarrow> Inl e
               | Inr res \<Rightarrow>
                   (let relPath = (if pre \<noteq> [] then pre @ ''/'' @ entry else entry) in
                    if isDir fs (pjoin dir entry) then
                      (case collectFiles fs (pjoin dir entry) relPath of
                         Inl e \<Rightarrow> Inl e
                       | Inr sub \<Rightarrow> Inr (assign res sub))
                    else
                      (case readFileSync fs (pjoin dir entry) of
                         Inl e \<Rightarrow> Inl e
                       | Inr content \<Rightarrow> Inr (setProp relPath content res))))"
  have same: "fmlookup fs' (dir @ xs) = fmlookup fs (dir @ xs)" for xs
    using "1.prems" by (simp add: atOrBelow_append)
  from same [of "[]"] have ex: "existsSync fs' dir = existsSync fs dir"
    by (simp add: existsSync_def)
  have rd: "readdirSync fs' dir = readdirSync fs dir"
    using same [of "[]"] same by (intro readdirSync_cong) simp_all
  have unfold: "collectFiles g dir pre =
     (if \<not> existsSync g dir then Inr []
      else (case readdirSync g dir of Inl e \<Rightarrow> Inl e | Inr entries \<Rightarrow> foldl (?F g) (Inr []) entries))"
    for g
    by (subst collectFiles.simps) (rule refl)
  show ?case
  proof (cases "existsSync fs dir")
    case False
    with ex show ?thesis by (simp add: unfold)
  next
    case True
    show ?thesis
    proof (cases "readdirSync fs dir")
      case (Inl e)
      with True ex rd show ?thesis by (simp add: unfold)
    next
      case (Inr entries)
      have "foldl (?F fs') (Inr []) entries = foldl (?F fs) (Inr []) entries"
      proof (rule foldl_cong [OF refl refl])
        fix a x assume x: "x \<in> set entries"
        from readdirSync_entry [OF Inr x] have v: "validName x" by simp
        have pj: "pjoin dir x = dir @ [x]" by (rule pjoin_validName [OF v])
        have d: "isDir fs' (pjoin dir x) = isDir fs (pjoin dir x)"
          using same [of "[x]"] by (simp add: isDir_def pj)
        have rf: "readFileSync fs' (pjoin dir x) = readFileSync fs (pjoin dir x)"
          using same [of "[x]"] by (simp add: readFileSync_def pj)
        show "?F fs' a x = ?F fs a x"
        proof (cases a)
          case (Inl e)
          then show ?thesis by simp
        next
          case (Inr ba)
          show ?thesis
          proof (cases "isDir fs (pjoin dir x)")
            case False
            with d rf Inr show ?thesis by (simp add: Let_def)
          next
            case dir: True
            have below: "\<forall>q. atOrBelow (pjoin dir x) q \<longrightarrow> fmlookup fs' q = fmlookup fs q"
              using "1.prems" atOrBelow_trans [of dir "dir @ [x]"]
              by (auto simp: pj atOrBelow_append)
            have nn: "\<not> \<not> existsSync fs dir" using True by simp
            from "1.IH" [OF nn \<open>readdirSync fs dir = Inr entries\<close> x Inr refl dir below]
            have "collectFiles fs' (pjoin dir x) (if pre \<noteq> [] then pre @ ''/'' @ x else x)
                = collectFiles fs (pjoin dir x) (if pre \<noteq> [] then pre @ ''/'' @ x else x)" .
            with d dir Inr show ?thesis by (simp add: Let_def)
          qed
        qed
      qed
      with True ex rd Inr show ?thesis by (simp add: unfold)
    qed
  qed
qed

lemma wellFormed_absent:
  assumes wf: "wellFormed fs" and p: "p \<noteq> []" and none: "fmlookup fs p = None"
  shows "fmlookup fs (p @ ext) = None"
proof (induction ext rule: rev_induct)
  case Nil
  from none show ?case by simp
next
  case (snoc x xs)
  show ?case
  proof (rule ccontr)
    assume "fmlookup fs (p @ xs @ [x]) \<noteq> None"
    from wellFormed_lookup [OF wf this] have "isDir fs (p @ xs)"
      by (simp add: butlast_append)
    with p snoc show False by (simp add: isDir_def)
  qed
qed

lemma wellFormed_prefix:
  assumes wf: "wellFormed fs"
  shows "isDir fs p \<Longrightarrow> q \<noteq> [] \<Longrightarrow> atOrBelow q p \<Longrightarrow> fmlookup fs q = Some Dir"
proof (induction p rule: rev_induct)
  case Nil
  then show ?case by (simp add: atOrBelow_def)
next
  case (snoc x xs)
  from snoc.prems(1) have d: "fmlookup fs (xs @ [x]) = Some Dir" by (simp add: isDir_def)
  from atOrBelow_snoc [OF snoc.prems(3)] show ?case
  proof
    assume "q = xs @ [x]"
    with d show ?thesis by simp
  next
    assume b: "atOrBelow q xs"
    from d have "fmlookup fs (xs @ [x]) \<noteq> None" by simp
    from wellFormed_lookup [OF wf this] have "isDir fs xs" by simp
    from snoc.IH [OF this snoc.prems(2) b] show ?thesis .
  qed
qed

text \<open>Once the target directory is made, it is there at the end of the generation.\<close>

lemma generateCollection_target:
  assumes "generateCollection e out fs = (fin, r)"
  shows "fin = fs \<or> fmlookup fin out = Some Dir \<or> out = []"
proof (cases "mkdirSync out fs")
  case (Inl err)
  with assms show ?thesis by (simp add: generateCollection_def atomic_def)
next
  case (Inr fs1)
  show ?thesis
  proof (cases "out = []")
    case True
    then show ?thesis by simp
  next
    case False
    from mkdirs_Inr [OF Inr [unfolded mkdirSync_def]] False
    have d: "fmlookup fs1 out = Some Dir"
      by (auto dest: spec [of _ "length out"])
    let ?rest = "[atomic (writeFileSync (pjoin out ''bruno.json'') brunoJson),
      atomic (writeFileSync (pjoin out ''collection.bru'') collectionBru),
      atomic (mkdirSync (pjoin out ''environments'')),
      atomic (writeFileSync (pjoin (pjoin out ''environments'') ''local.bru'') localBru),
      processHurlFiles e out]"
    from generateCollection_stmts [of out e] have "list_all (frames out) ?rest" by simp
    from frames_steps [OF this] have "changedWithin out fs1 (fst (steps ?rest fs1))"
      by (simp add: frames_def)
    moreover from assms Inr have "fin = fst (steps ?rest fs1)"
      by (simp add: generateCollection_def atomic_def)
    ultimately have "changedWithin out fs1 fin" by simp
    with d have "fmlookup fin out = Some Dir"
      unfolding changedWithin_def by blast
    then show ?thesis by simp
  qed
qed

text \<open>The file system that the generation starts from in the default mode.\<close>

lemma generateMode_eq:
  "generateMode e fs =
     (fst (generateCollection e (BRUNO_DIR e)
             (if existsSync fs (BRUNO_DIR e) then rmSync (BRUNO_DIR e) fs else fs)),
      (case snd (generateCollection e (BRUNO_DIR e)
             (if existsSync fs (BRUNO_DIR e) then rmSync (BRUNO_DIR e) fs else fs)) of
         Some err \<Rightarrow> Thrown err
       | None \<Rightarrow>
           (case collectFiles (fst (generateCollection e (BRUNO_DIR e)
                   (if existsSync fs (BRUNO_DIR e) then rmSync (BRUNO_DIR e) fs else fs)))
                 (BRUNO_DIR e) [] of
              Inl err \<Rightarrow> Thrown err
            | Inr files \<Rightarrow> Returned)))"
proof -
  have "(case g of
           (fs1, Some err) \<Rightarrow> (fs1, Thrown err)
         | (fs1, None) \<Rightarrow>
             (case collectFiles fs1 b [] of
                Inl err \<Rightarrow> (fs1, Thrown err)
              | Inr files \<Rightarrow> (fs1, Returned)))
      = (fst g, (case snd g of
                   Some err \<Rightarrow> Thrown err
                 | None \<Rightarrow> (case collectFiles (fst g) b [] of
                              Inl err \<Rightarrow> Thrown err
                            | Inr files \<Rightarrow> Returned)))"
    for g :: "fs \<times> error option" and b
    by (cases g) (simp split: option.splits sum.splits)
  then show ?thesis unfolding generateMode_def by (rule trans [OF _ refl])
qed

lemma bruno_not_in_root: "\<not> atOrBelow (root @ [''bruno'']) q" if "atOrBelow q root" for q root
proof
  assume "atOrBelow (root @ [''bruno'']) q"
  from atOrBelow_trans [OF this that] show False by (simp add: atOrBelow_def)
qed

text \<open>
  C4 (regeneration is idempotent): in a file system in which every entry lies in a
  directory and the directory of the script exists, the default mode run a second
  time on what the first run left ends the same way and leaves the same target
  tree: every path at or below the target directory holds the same node, so the
  dictionary from relative paths to contents that \<open>collectFiles\<close> reads is the same,
  the three scaffolding files included.
\<close>

theorem regeneration_idempotent:
  assumes wf: "wellFormed fs" and root: "isDir fs (ROOT e)"
  shows "snd (generateMode e (fst (generateMode e fs))) = snd (generateMode e fs)
       \<and> (\<forall>q. atOrBelow (BRUNO_DIR e) q \<longrightarrow>
             fmlookup (fst (generateMode e (fst (generateMode e fs)))) q
               = fmlookup (fst (generateMode e fs)) q)
       \<and> collectFiles (fst (generateMode e (fst (generateMode e fs)))) (BRUNO_DIR e) []
           = collectFiles (fst (generateMode e fs)) (BRUNO_DIR e) []"
proof -
  let ?R = "ROOT e" and ?B = "BRUNO_DIR e"
  define A where "A = (if existsSync fs ?B then rmSync ?B fs else fs)"
  define fin where "fin = fst (generateCollection e ?B A)"
  define A' where "A' = (if existsSync fin ?B then rmSync ?B fin else fin)"
  define fin' where "fin' = fst (generateCollection e ?B A')"
  have B: "?B = ?R @ [''bruno'']" by (rule BRUNO_DIR_eq)
  have A_in: "fmlookup A q = None" if "atOrBelow ?B q" for q
  proof (cases "existsSync fs ?B")
    case True
    with that show ?thesis by (simp add: A_def lookup_rmSync)
  next
    case False
    then have "fmlookup fs ?B = None" by (simp add: existsSync_def)
    moreover have "?B \<noteq> []" by (simp add: B)
    moreover from that obtain ext where "q = ?B @ ext" by (auto simp: atOrBelow_iff)
    ultimately show ?thesis using wellFormed_absent [OF wf] False by (simp add: A_def)
  qed
  have A_out: "fmlookup A q = fmlookup fs q" if "\<not> atOrBelow ?B q" for q
    using that by (simp add: A_def lookup_rmSync)
  have A_root: "fmlookup A q = Some Dir" if "q \<noteq> []" "atOrBelow q ?R" for q
  proof -
    from bruno_not_in_root [OF that(2)] have "\<not> atOrBelow ?B q" by (simp add: B)
    with A_out have "fmlookup A q = fmlookup fs q" by simp
    with wellFormed_prefix [OF wf root that] show ?thesis by simp
  qed
  have ag: "agreeBut ?R A A'"
  proof -
    obtain r where g: "generateCollection e ?B A = (fin, r)"
      unfolding fin_def by (cases "generateCollection e ?B A") simp
    from generateCollection_target [OF g] have "fin = A \<or> fmlookup fin ?B = Some Dir"
      by (simp add: B)
    then show ?thesis
    proof
      assume "fin = A"
      moreover from A_in [of ?B] have "\<not> existsSync A ?B"
        by (simp add: existsSync_def atOrBelow_refl B)
      ultimately have "A' = A" by (simp add: A'_def)
      then show ?thesis by (simp only: agreeBut_refl)
    next
      assume "fmlookup fin ?B = Some Dir"
      then have A': "A' = rmSync ?B fin" by (simp add: A'_def existsSync_def)
      from frames_generateCollection [of ?B e] have ch: "changedWithin ?B A fin"
        by (simp add: frames_def fin_def)
      have "agreeBut ?R A (rmSync ?B fin)"
        unfolding agreeBut_def
      proof
        fix q
        show "fmlookup (rmSync ?B fin) q = fmlookup A q
          \<or> (\<exists>f c. q = ?R @ [f] \<and> endsWith ''.bru'' f
                 \<and> fmlookup A q \<noteq> Some Dir \<and> fmlookup (rmSync ?B fin) q = Some (File c))"
        proof (cases "atOrBelow ?B q")
          case True
          with A_in show ?thesis by (simp add: lookup_rmSync)
        next
          case False
          then have l: "fmlookup (rmSync ?B fin) q = fmlookup fin q" by (simp add: lookup_rmSync)
          have np: "\<not> (q \<noteq> [] \<and> atOrBelow q ?B \<and> fmlookup A q = None)"
          proof
            assume p: "q \<noteq> [] \<and> atOrBelow q ?B \<and> fmlookup A q = None"
            then have "atOrBelow q (?R @ [''bruno''])" by (simp add: B)
            from atOrBelow_snoc [OF this] show False
            proof
              assume "q = ?R @ [''bruno'']"
              with False show False by (simp add: B atOrBelow_refl)
            next
              assume "atOrBelow q ?R"
              with A_root [of q] p show False by auto
            qed
          qed
          from ch have "(fmlookup A q = Some Dir \<and> fmlookup fin q = Some Dir)
            \<or> (fmlookup A q \<noteq> Some Dir
                \<and> (fmlookup fin q = fmlookup A q
                    \<or> atOrBelow ?B q
                    \<or> (q \<noteq> [] \<and> atOrBelow q ?B \<and> fmlookup A q = None \<and> fmlookup fin q = Some Dir)
                    \<or> (\<exists>f c. q = butlast ?B @ [f] \<and> endsWith ''.bru'' f
                           \<and> fmlookup fin q = Some (File c))))"
            unfolding changedWithin_def by blast
          moreover have "butlast ?B = ?R" by (simp add: B)
          ultimately show ?thesis using False np l by auto
        qed
      qed
      with A' show ?thesis by simp
    qed
  qed
  have "simulates ?R (generateCollection e ?B)"
    using simulates_generateCollection [OF refl, of e] by (simp add: B)
  with ag have r: "snd (generateCollection e ?B A) = snd (generateCollection e ?B A')"
    and ag2: "agreeBut ?R fin fin'"
    by (simp_all add: simulates_def fin_def fin'_def)
  have tree: "fmlookup fin' q = fmlookup fin q" if "atOrBelow ?B q" for q
  proof -
    from that obtain ext where q: "q = ?R @ ''bruno'' # ext" by (auto simp: atOrBelow_iff B)
    have "\<not> (\<exists>f. q = ?R @ [f] \<and> endsWith ''.bru'' f)"
      using not_bru(1) by (auto simp: q)
    from agreeBut_same [OF ag2 this] show ?thesis .
  qed
  then have files: "collectFiles fin' ?B [] = collectFiles fin ?B []"
    by (intro collectFiles_cong) simp
  have first: "generateMode e fs =
      (fin, (case snd (generateCollection e ?B A) of
                Some err \<Rightarrow> Thrown err
              | None \<Rightarrow> (case collectFiles fin ?B [] of
                           Inl err \<Rightarrow> Thrown err
                         | Inr files \<Rightarrow> Returned)))"
    unfolding fin_def A_def by (rule generateMode_eq)
  have second: "generateMode e fin =
      (fin', (case snd (generateCollection e ?B A') of
                Some err \<Rightarrow> Thrown err
              | None \<Rightarrow> (case collectFiles fin' ?B [] of
                           Inl err \<Rightarrow> Thrown err
                         | Inr files \<Rightarrow> Returned)))"
    unfolding fin'_def A'_def by (rule generateMode_eq)
  from first have f1: "fst (generateMode e fs) = fin" by simp
  have f2: "fst (generateMode e fin) = fin'"
    using second by simp
  have s: "snd (generateMode e fin) = snd (generateMode e fs)"
    by (simp only: first second r files snd_conv)
  show ?thesis
    unfolding f1 f2 using s tree files by blast
qed

theorem regeneration_idempotent_witness:
  "wellFormed (fmap_of_list [([''repo''], Dir), ([''repo'', ''hurl''], Dir),
       ([''repo'', ''hurl'', ''a_b.hurl''], File ''# Get tags\<newline>GET {{host}}/api/tags\<newline>HTTP 200''),
       ([''repo'', ''bruno''], Dir), ([''repo'', ''bruno'', ''old.bru''], File ''stale'')])
   \<and> isDir (fmap_of_list [([''repo''], Dir), ([''repo'', ''hurl''], Dir),
       ([''repo'', ''hurl'', ''a_b.hurl''], File ''# Get tags\<newline>GET {{host}}/api/tags\<newline>HTTP 200''),
       ([''repo'', ''bruno''], Dir), ([''repo'', ''bruno'', ''old.bru''], File ''stale'')])
      (ROOT \<lparr>ROOT = [''repo''], tmpdir = [''tmp''], now = 7\<rparr>)
   \<and> snd (generateMode \<lparr>ROOT = [''repo''], tmpdir = [''tmp''], now = 7\<rparr>
        (fst (generateMode \<lparr>ROOT = [''repo''], tmpdir = [''tmp''], now = 7\<rparr>
          (fmap_of_list [([''repo''], Dir), ([''repo'', ''hurl''], Dir),
       ([''repo'', ''hurl'', ''a_b.hurl''], File ''# Get tags\<newline>GET {{host}}/api/tags\<newline>HTTP 200''),
       ([''repo'', ''bruno''], Dir), ([''repo'', ''bruno'', ''old.bru''], File ''stale'')]))))
     = Returned
   \<and> map fst (projr (collectFiles
        (fst (generateMode \<lparr>ROOT = [''repo''], tmpdir = [''tmp''], now = 7\<rparr>
        (fst (generateMode \<lparr>ROOT = [''repo''], tmpdir = [''tmp''], now = 7\<rparr>
          (fmap_of_list [([''repo''], Dir), ([''repo'', ''hurl''], Dir),
       ([''repo'', ''hurl'', ''a_b.hurl''], File ''# Get tags\<newline>GET {{host}}/api/tags\<newline>HTTP 200''),
       ([''repo'', ''bruno''], Dir), ([''repo'', ''bruno'', ''old.bru''], File ''stale'')])))))
        (BRUNO_DIR \<lparr>ROOT = [''repo''], tmpdir = [''tmp''], now = 7\<rparr>) []))
     = [''a-b/01-get-tags.bru'', ''bruno.json'', ''collection.bru'', ''environments/local.bru'']"
proof -
  let ?e = "\<lparr>ROOT = [''repo''], tmpdir = [''tmp''], now = 7\<rparr>"
  let ?fs = "fmap_of_list [([''repo''], Dir), ([''repo'', ''hurl''], Dir),
       ([''repo'', ''hurl'', ''a_b.hurl''], File ''# Get tags\<newline>GET {{host}}/api/tags\<newline>HTTP 200''),
       ([''repo'', ''bruno''], Dir), ([''repo'', ''bruno'', ''old.bru''], File ''stale'')]"
  have wf: "wellFormed ?fs" by code_simp
  have root: "isDir ?fs (ROOT ?e)" by code_simp
  have one: "snd (generateMode ?e ?fs) = Returned" by code_simp
  have files: "map fst (projr (collectFiles (fst (generateMode ?e ?fs)) (BRUNO_DIR ?e) []))
     = [''a-b/01-get-tags.bru'', ''bruno.json'', ''collection.bru'', ''environments/local.bru'']"
    by code_simp
  note main = regeneration_idempotent [OF wf root]
  from main one have two: "snd (generateMode ?e (fst (generateMode ?e ?fs))) = Returned"
    by (simp only:)
  from main have "collectFiles (fst (generateMode ?e (fst (generateMode ?e ?fs)))) (BRUNO_DIR ?e) []
           = collectFiles (fst (generateMode ?e ?fs)) (BRUNO_DIR ?e) []"
    by (rule conjunct2 [THEN conjunct2])
  with files have "map fst (projr (collectFiles (fst (generateMode ?e (fst (generateMode ?e ?fs)))) (BRUNO_DIR ?e) []))
     = [''a-b/01-get-tags.bru'', ''bruno.json'', ''collection.bru'', ''environments/local.bru'']"
    by (simp only:)
  with wf root two show ?thesis by (intro conjI)
qed

end
